theory Spec2Isabelle
  imports Main "HOL-Library.Multiset" "HOL-Library.Product_Lexorder"
begin

section \<open>The blog engine: loading, ordering and looking up posts\<close>

text \<open>
  The program is one Go file, \<open>main.go\<close>. At start-up \<open>loadPosts\<close> reads every entry of
  the embedded directory \<open>content\<close> (\<open>//go:embed content/*.md\<close>), cuts each file at the
  token \<open>---\<close> into front matter and body, reads \<open>Title: \<close> and \<open>Date: \<close> lines, derives the
  slug from the file name, converts the body with goldmark, cuts a summary, sorts the
  posts with \<open>sort.Slice\<close> and stores them in \<open>postCache\<close>. The handler of \<open>/post/\<close> scans
  \<open>postCache\<close> for a slug.

  A Go \<open>string\<close> is a sequence of bytes and \<open>len\<close> counts bytes; so is a HOL \<open>string\<close>
  (a list of 8-bit characters).
\<close>

subsection \<open>The functions of package strings that the program calls\<close>

text \<open>\<open>strings.HasPrefix\<close>, \<open>TrimPrefix\<close>, \<open>HasSuffix\<close>, \<open>TrimSuffix\<close>, as the library defines them.\<close>

definition HasPrefix :: "string \<Rightarrow> string \<Rightarrow> bool" where
  "HasPrefix s pre \<longleftrightarrow> length pre \<le> length s \<and> take (length pre) s = pre"

definition TrimPrefix :: "string \<Rightarrow> string \<Rightarrow> string" where
  "TrimPrefix s pre = (if HasPrefix s pre then drop (length pre) s else s)"

definition HasSuffix :: "string \<Rightarrow> string \<Rightarrow> bool" where
  "HasSuffix s suf \<longleftrightarrow> length suf \<le> length s \<and> drop (length s - length suf) s = suf"

definition TrimSuffix :: "string \<Rightarrow> string \<Rightarrow> string" where
  "TrimSuffix s suf = (if HasSuffix s suf then take (length s - length suf) s else s)"

text \<open>
  \<open>strings.Index\<close>: the position of the first occurrence of \<open>substr\<close>; Go's \<open>-1\<close> is
  \<open>None\<close>.
\<close>

fun Index :: "string \<Rightarrow> string \<Rightarrow> nat option" where
  "Index [] substr = (if substr = [] then Some 0 else None)"
| "Index (c # cs) substr =
     (if HasPrefix (c # cs) substr then Some 0 else map_option Suc (Index cs substr))"

text \<open>
  The loop of \<open>strings.genSplit\<close> for a non-empty separator: \<open>k\<close> is the number of cuts
  still allowed (Go's \<open>n - 1\<close>); a cut is made at the first occurrence of the separator and
  the loop stops when there is none. The last piece is the unsplit remainder.
\<close>

fun genSplit :: "string \<Rightarrow> string \<Rightarrow> nat \<Rightarrow> string list" where
  "genSplit s sep 0 = [s]"
| "genSplit s sep (Suc k) =
     (case Index s sep of
        None \<Rightarrow> [s]
      | Some m \<Rightarrow> take m s # genSplit (drop (m + length sep) s) sep k)"

text \<open>
  \<open>strings.SplitN(s, sep, n)\<close> for \<open>n \<ge> 0\<close> and a non-empty separator (the program passes
  \<open>---\<close> and \<open>3\<close>): no piece for \<open>n = 0\<close>, otherwise at most \<open>n\<close> pieces, \<open>n\<close> capped at
  \<open>len(s) + 1\<close> as the library does.
\<close>

definition SplitN :: "string \<Rightarrow> string \<Rightarrow> nat \<Rightarrow> string list" where
  "SplitN s sep n = (if n = 0 then [] else genSplit s sep (min n (length s + 1) - 1))"

text \<open>
  \<open>strings.Split(s, sep)\<close> is \<open>genSplit\<close> with \<open>n = Count(s, sep) + 1\<close>, capped at
  \<open>len(s) + 1\<close> in the same way. A non-empty separator occurs at most \<open>len(s)\<close> times without
  overlap and the loop stops at the first miss, so \<open>len(s)\<close> allowed cuts split at every
  occurrence (the program passes the line feed).
\<close>

definition Split :: "string \<Rightarrow> string \<Rightarrow> string list" where
  "Split s sep = genSplit s sep (length s)"

text \<open>
  \<open>strings.TrimSpace\<close> removes leading and trailing white space as \<open>unicode.IsSpace\<close>
  defines it. On bytes: the six ASCII spaces, and the UTF-8 encodings of U+0085, U+00A0,
  U+1680, U+2000 to U+200A, U+2028, U+2029, U+202F, U+205F and U+3000. A byte that does
  not start a well-formed encoding decodes to U+FFFD, which is no space, so stripping the
  listed byte sequences from either end is what the library's decoding loops do.
\<close>

definition spaces :: "string list" where
  "spaces =
    [[CHR 0x09], [CHR 0x0A], [CHR 0x0B], [CHR 0x0C], [CHR 0x0D], [CHR 0x20],
     [CHR 0xC2, CHR 0x85], [CHR 0xC2, CHR 0xA0], [CHR 0xE1, CHR 0x9A, CHR 0x80],
     [CHR 0xE2, CHR 0x80, CHR 0x80], [CHR 0xE2, CHR 0x80, CHR 0x81],
     [CHR 0xE2, CHR 0x80, CHR 0x82], [CHR 0xE2, CHR 0x80, CHR 0x83],
     [CHR 0xE2, CHR 0x80, CHR 0x84], [CHR 0xE2, CHR 0x80, CHR 0x85],
     [CHR 0xE2, CHR 0x80, CHR 0x86], [CHR 0xE2, CHR 0x80, CHR 0x87],
     [CHR 0xE2, CHR 0x80, CHR 0x88], [CHR 0xE2, CHR 0x80, CHR 0x89],
     [CHR 0xE2, CHR 0x80, CHR 0x8A], [CHR 0xE2, CHR 0x80, CHR 0xA8],
     [CHR 0xE2, CHR 0x80, CHR 0xA9], [CHR 0xE2, CHR 0x80, CHR 0xAF],
     [CHR 0xE2, CHR 0x81, CHR 0x9F], [CHR 0xE3, CHR 0x80, CHR 0x80]]"

fun stripLeft :: "string list \<Rightarrow> string \<Rightarrow> string" where
  "stripLeft toks [] = []"
| "stripLeft toks (c # cs) =
     (case find (\<lambda>t. t \<noteq> [] \<and> HasPrefix (c # cs) t) toks of
        None \<Rightarrow> c # cs
      | Some t \<Rightarrow> stripLeft toks (drop (length t - 1) cs))"

definition TrimSpace :: "string \<Rightarrow> string" where
  "TrimSpace s = rev (stripLeft (map rev spaces) (rev (stripLeft spaces s)))"

subsection \<open>\<open>filepath.Ext\<close>\<close>

text \<open>
  \<open>filepath.Ext\<close> walks back from the end of the path to the last dot of its last element
  and returns the suffix from that dot; the empty string when a separator or the start
  comes first. The separator is the slash (the Unix build; an entry name of an embedded
  directory holds none).
\<close>

definition IsPathSeparator :: "char \<Rightarrow> bool" where
  "IsPathSeparator c \<longleftrightarrow> c = CHR ''/''"

fun ExtLoop :: "string \<Rightarrow> string \<Rightarrow> string" where
  "ExtLoop [] acc = []"
| "ExtLoop (c # cs) acc =
     (if IsPathSeparator c then []
      else if c = CHR ''.'' then c # acc
      else ExtLoop cs (c # acc))"

definition Ext :: "string \<Rightarrow> string" where
  "Ext path = ExtLoop (rev path) []"

subsection \<open>\<open>time.Parse\<close> with the layout \<open>2006-01-02\<close>, and \<open>Time.After\<close>\<close>

text \<open>
  The only times of the program are the zero \<open>time.Time\<close> (January 1 of year 1, UTC) and
  the results of \<open>time.Parse("2006-01-02", _)\<close>: midnight UTC of a calendar day. Such a
  time is its year, month and day, and \<open>After\<close> compares them in this order.
\<close>

record Time =
  year :: nat
  month :: nat
  day :: nat

definition zeroTime :: Time where
  "zeroTime = \<lparr>year = 1, month = 1, day = 1\<rparr>"

definition After :: "Time \<Rightarrow> Time \<Rightarrow> bool" where
  "After t u \<longleftrightarrow>
     year u < year t \<or>
     (year u = year t \<and> (month u < month t \<or> (month u = month t \<and> day u < day t)))"

definition isDigit :: "string \<Rightarrow> nat \<Rightarrow> bool" where
  "isDigit s i \<longleftrightarrow>
     i < length s \<and> (48::nat) \<le> of_char (s ! i) \<and> of_char (s ! i) \<le> (57::nat)"

definition digit :: "char \<Rightarrow> nat" where
  "digit c = of_char c - 48"

text \<open>\<open>atoi\<close> on a string of decimal digits (the caller has checked the first byte).\<close>

definition atoi :: "string \<Rightarrow> nat option" where
  "atoi s =
     (if (\<forall>i < length s. isDigit s i) then Some (foldl (\<lambda>a c. a * 10 + digit c) 0 s)
      else None)"

text \<open>\<open>getnum\<close>: one or two digits; exactly two when \<open>fixed\<close>.\<close>

definition getnum :: "string \<Rightarrow> bool \<Rightarrow> (nat \<times> string) option" where
  "getnum s fixed =
     (if \<not> isDigit s 0 then None
      else if \<not> isDigit s 1 then (if fixed then None else Some (digit (s ! 0), drop 1 s))
      else Some (digit (s ! 0) * 10 + digit (s ! 1), drop 2 s))"

text \<open>\<open>skip\<close> for the one-byte prefix \<open>-\<close> that stands between the fields of the layout.\<close>

definition skip :: "string \<Rightarrow> string \<Rightarrow> string option" where
  "skip v pre = (if HasPrefix v pre then Some (drop (length pre) v) else None)"

definition isLeap :: "nat \<Rightarrow> bool" where
  "isLeap y \<longleftrightarrow> y mod 4 = 0 \<and> (y mod 100 \<noteq> 0 \<or> y mod 400 = 0)"

definition daysIn :: "nat \<Rightarrow> nat \<Rightarrow> nat" where
  "daysIn m y =
     (if m = 2 \<and> isLeap y then 29
      else [31, 28, 31, 30, 31, 30, 31, 31, 30, 31, 30, 31] ! (m - 1))"

text \<open>
  The chunks of the layout in turn: a four-digit year, \<open>-\<close>, a two-digit month in 1..12,
  \<open>-\<close>, a two-digit day, no text left over, and the day within the month. Any error makes
  the result \<open>None\<close>; Go returns the zero time with the error.
\<close>

definition Parse :: "string \<Rightarrow> Time option" where
  "Parse v =
     (if length v < 4 \<or> \<not> isDigit v 0 then None
      else case atoi (take 4 v) of
        None \<Rightarrow> None
      | Some y \<Rightarrow>
         (case skip (drop 4 v) ''-'' of
            None \<Rightarrow> None
          | Some v1 \<Rightarrow>
             (case getnum v1 True of
                None \<Rightarrow> None
              | Some (m, v2) \<Rightarrow>
                 if m \<le> 0 \<or> 12 < m then None
                 else (case skip v2 ''-'' of
                    None \<Rightarrow> None
                  | Some v3 \<Rightarrow>
                     (case getnum v3 True of
                        None \<Rightarrow> None
                      | Some (d, v4) \<Rightarrow>
                         if v4 \<noteq> [] then None
                         else if d < 1 \<or> daysIn m y < d then None
                         else Some \<lparr>year = y, month = m, day = d\<rparr>)))))"

subsection \<open>Posts\<close>

record Post =
  Title :: string
  Date :: Time
  Slug :: string
  Content :: string
  Summary :: string

text \<open>\<open>Post{}\<close>: every field at its zero value.\<close>

definition zeroPost :: Post where
  "zeroPost = \<lparr>Title = [], Date = zeroTime, Slug = [], Content = [], Summary = []\<rparr>"

text \<open>The three \<open>continue\<close> branches of the loop of \<open>loadPosts\<close>, named after their log lines.\<close>

datatype skipped = Error_reading_file | Error_parsing_file | Error_converting_goldmark

text \<open>The slug (line 138): the entry's name without its extension.\<close>

definition slugOf :: "string \<Rightarrow> string" where
  "slugOf filename = TrimSuffix filename (Ext filename)"

text \<open>The body of the loop over the lines of the front matter.\<close>

definition metaLine :: "string \<Rightarrow> Post \<Rightarrow> Post" where
  "metaLine line post =
     (let post1 = (if HasPrefix line ''Title: ''
                   then post\<lparr>Title := TrimPrefix line ''Title: ''\<rparr> else post)
      in if HasPrefix line ''Date: ''
         then (let dateStr = TrimPrefix line ''Date: ''
               in post1\<lparr>Date := (case Parse (TrimSpace dateStr) of
                                    None \<Rightarrow> zeroTime | Some t \<Rightarrow> t)\<rparr>)
         else post1)"

fun metaLoop :: "string list \<Rightarrow> Post \<Rightarrow> Post" where
  "metaLoop [] post = post"
| "metaLoop (line # lines) post = metaLoop lines (metaLine line post)"

text \<open>
  The body of the loop of \<open>loadPosts\<close> once the file is read (lines 112 to 154): from the
  entry's name and the file's bytes to a post, or to the branch that skips the file.
  \<open>goldmark.Convert\<close> is a library outside the program: it is the parameter \<open>conv\<close>, from the
  body to the HTML, \<open>None\<close> when it returns an error. (The program calls it with the default
  options and a \<open>bytes.Buffer\<close> to write to, where it returns no error; the properties that
  need this say so.)
\<close>

definition parsePost :: "(string \<Rightarrow> string option) \<Rightarrow> string \<Rightarrow> string \<Rightarrow> skipped + Post" where
  "parsePost conv filename content =
     (let parts = SplitN content ''---'' 3
      in if length parts < 3 then Inl Error_parsing_file
         else
           let metaRaw = parts ! 1;
               bodyRaw = parts ! 2;
               post = metaLoop (Split metaRaw [CHR 0x0A]) zeroPost;
               post = post\<lparr>Slug := slugOf filename\<rparr>
           in case conv bodyRaw of
                None \<Rightarrow> Inl Error_converting_goldmark
              | Some html \<Rightarrow>
                  Inr (post\<lparr>Content := html,
                            Summary := (if 150 < length bodyRaw
                                        then take 150 bodyRaw @ ''...'' else bodyRaw)\<rparr>))"

text \<open>
  The embedded file system, by the two calls the program makes: \<open>ReadDir\<close> gives the names
  of the entries of a directory and \<open>ReadFile\<close> the bytes of a file, each \<open>None\<close> on error.
\<close>

record FS =
  ReadDir :: "string \<Rightarrow> string list option"
  ReadFile :: "string \<Rightarrow> string option"

definition loadEntry :: "(string \<Rightarrow> string option) \<Rightarrow> FS \<Rightarrow> string \<Rightarrow> skipped + Post" where
  "loadEntry conv fs name =
     (case ReadFile fs (''content/'' @ name) of
        None \<Rightarrow> Inl Error_reading_file
      | Some content \<Rightarrow> parsePost conv name content)"

text \<open>The loop of \<open>loadPosts\<close>: a skipped entry leaves \<open>posts\<close> as it is, a post is appended.\<close>

fun loadLoop :: "(string \<Rightarrow> string option) \<Rightarrow> FS \<Rightarrow> string list \<Rightarrow> Post list \<Rightarrow> Post list" where
  "loadLoop conv fs [] posts = posts"
| "loadLoop conv fs (name # files) posts =
     (case loadEntry conv fs name of
        Inl _ \<Rightarrow> loadLoop conv fs files posts
      | Inr post \<Rightarrow> loadLoop conv fs files (posts @ [post]))"

text \<open>
  \<open>sort.Slice(x, less)\<close> is a library outside the program, and its algorithm differs
  between Go releases. What its documentation promises is the model: the slice is
  rearranged (\<open>ys\<close> is a permutation of \<open>xs\<close>) so that no element is \<open>less\<close> (here \<open>lt\<close>) than one
  before it; "the sort is not guaranteed to be stable". It is a relation between the slice before
  and after.
\<close>

definition sort_Slice :: "('a \<Rightarrow> 'a \<Rightarrow> bool) \<Rightarrow> 'a list \<Rightarrow> 'a list \<Rightarrow> bool" where
  "sort_Slice lt xs ys \<longleftrightarrow> mset ys = mset xs \<and> sorted_wrt (\<lambda>a b. \<not> lt b a) ys"

text \<open>The \<open>less\<close> function that \<open>loadPosts\<close> passes: \<open>posts[i].Date.After(posts[j].Date)\<close>.\<close>

definition lessDate :: "Post \<Rightarrow> Post \<Rightarrow> bool" where
  "lessDate p q \<longleftrightarrow> After (Date p) (Date q)"

text \<open>
  \<open>loadPosts\<close> relates the file system to the value it leaves in \<open>postCache\<close>. When
  \<open>ReadDir\<close> fails the program exits (\<open>log.Fatal\<close>) and there is no cache.
\<close>

definition loadPosts :: "(string \<Rightarrow> string option) \<Rightarrow> FS \<Rightarrow> Post list \<Rightarrow> bool" where
  "loadPosts conv fs postCache \<longleftrightarrow>
     (case ReadDir fs ''content'' of
        None \<Rightarrow> False
      | Some files \<Rightarrow> sort_Slice lessDate (loadLoop conv fs files []) postCache)"

text \<open>
  The scan of the handler of \<open>/post/\<close>: \<open>foundPost\<close> and \<open>found\<close> start as the zero post and
  \<open>false\<close>; the first post with the slug sets both and breaks the loop.
\<close>

fun findLoop :: "Post list \<Rightarrow> string \<Rightarrow> Post \<times> bool \<Rightarrow> Post \<times> bool" where
  "findLoop [] slug acc = acc"
| "findLoop (p # ps) slug acc = (if Slug p = slug then (p, True) else findLoop ps slug acc)"

datatype response = NotFound | PostPage string Post

text \<open>
  The handler up to the data it hands to the template: \<open>http.NotFound\<close> when \<open>found\<close> is
  false, else \<open>PostData\<close> with the post's title and the post.
\<close>

definition findBySlug :: "Post list \<Rightarrow> string \<Rightarrow> response" where
  "findBySlug postCache slug =
     (case findLoop postCache slug (zeroPost, False) of
        (foundPost, found) \<Rightarrow>
          if \<not> found then NotFound else PostPage (Title foundPost) foundPost)"

definition postHandler :: "Post list \<Rightarrow> string \<Rightarrow> response" where
  "postHandler postCache path = findBySlug postCache (TrimPrefix path ''/post/'')"

subsection \<open>Notions the properties are stated with\<close>

text \<open>
  The entries of the embedded directory: the pattern \<open>content/*.md\<close> of the \<open>go:embed\<close>
  directive admits only names that end in \<open>.md\<close>, and a directory holds a name once.
\<close>

definition embedded :: "FS \<Rightarrow> bool" where
  "embedded fs \<longleftrightarrow>
     (case ReadDir fs ''content'' of
        None \<Rightarrow> True
      | Some files \<Rightarrow> distinct files \<and> list_all (\<lambda>f. HasSuffix f ''.md'') files)"


text \<open>
  Well-formed UTF-8, as \<open>utf8.ValidString\<close> decides it: \<open>runeWidth\<close> is the number of bytes
  of the well-formed encoding a string starts with, \<open>0\<close> when it starts with none.
\<close>

definition cont :: "char \<Rightarrow> bool" where
  "cont c \<longleftrightarrow> (0x80::nat) \<le> of_char c \<and> of_char c \<le> (0xBF::nat)"

definition between :: "nat \<Rightarrow> char \<Rightarrow> nat \<Rightarrow> bool" where
  "between lo c hi \<longleftrightarrow> lo \<le> of_char c \<and> of_char c \<le> hi"

definition runeWidth :: "string \<Rightarrow> nat" where
  "runeWidth s =
     (case s of
        [] \<Rightarrow> 0
      | b # bs \<Rightarrow>
         (let n = (of_char b :: nat) in
          if n < 0x80 then 1
          else if 0xC2 \<le> n \<and> n \<le> 0xDF then
            (if 1 \<le> length bs \<and> cont (bs ! 0) then 2 else 0)
          else if 0xE0 \<le> n \<and> n \<le> 0xEF then
            (if 2 \<le> length bs
                \<and> between (if n = 0xE0 then 0xA0 else 0x80) (bs ! 0)
                     (if n = 0xED then 0x9F else 0xBF)
                \<and> cont (bs ! 1) then 3 else 0)
          else if 0xF0 \<le> n \<and> n \<le> 0xF4 then
            (if 3 \<le> length bs
                \<and> between (if n = 0xF0 then 0x90 else 0x80) (bs ! 0)
                     (if n = 0xF4 then 0x8F else 0xBF)
                \<and> cont (bs ! 1) \<and> cont (bs ! 2) then 4 else 0)
          else 0))"

fun ValidString :: "string \<Rightarrow> bool" where
  "ValidString [] = True"
| "ValidString (b # bs) =
     (let w = runeWidth (b # bs) in 0 < w \<and> ValidString (drop (w - 1) bs))"

text \<open>
  A piece in which the token \<open>---\<close> does not begin: in the piece followed by the token,
  the first occurrence of the token is the one that follows the piece.
\<close>

definition tokenFree :: "string \<Rightarrow> bool" where
  "tokenFree x \<longleftrightarrow> Index (x @ ''---'') ''---'' = Some (length x)"

text \<open>
  The form \<open>YYYY-MM-DD\<close>: ten bytes, decimal digits but for a dash at the fifth and at the
  eighth place.
\<close>

definition isoForm :: "string \<Rightarrow> bool" where
  "isoForm v \<longleftrightarrow>
     length v = 10 \<and> list_all (isDigit v) [0, 1, 2, 3, 5, 6, 8, 9]
     \<and> v ! 4 = CHR ''-'' \<and> v ! 7 = CHR ''-''"

text \<open>
  A character lies across the end of the first \<open>n\<close> bytes of a body: after a well-formed
  start of \<open>i < n\<close> bytes comes a well-formed encoding that ends beyond byte \<open>n\<close>.
\<close>

definition straddles :: "string \<Rightarrow> nat \<Rightarrow> bool" where
  "straddles body n \<longleftrightarrow>
     (\<exists>i < n. ValidString (take i body) \<and> n < i + runeWidth (drop i body))"

subsection \<open>Sample inputs\<close>

text \<open>
  Two posts as the program's \<open>content\<close> directory holds them: \<open>post-a.md\<close>, dated
  January 1 of 2024 with a short body, and \<open>post-b.md\<close>, dated June 1 of 2024 with a body
  of a line feed and 200 bytes \<open>x\<close>. \<open>postA\<close> and \<open>postB\<close> are the posts they load to when
  the conversion returns the body as it is (the stand-in \<open>Some\<close> for goldmark).
\<close>

definition contentA :: string where
  "contentA = ''---\<newline>Title: A\<newline>Date: 2024-01-01\<newline>---\<newline>Hello''"

definition contentB :: string where
  "contentB = ''---\<newline>Title: B\<newline>Date: 2024-06-01\<newline>---\<newline>''
                @ replicate 200 (CHR ''x'')"

definition fsA :: FS where
  "fsA = \<lparr>ReadDir = (\<lambda>d. if d = ''content'' then Some [''post-a.md'', ''post-b.md''] else None),
          ReadFile = map_of [(''content/post-a.md'', contentA), (''content/post-b.md'', contentB)]\<rparr>"

definition postA :: Post where
  "postA = \<lparr>Title = ''A'', Date = \<lparr>year = 2024, month = 1, day = 1\<rparr>, Slug = ''post-a'',
            Content = ''\<newline>Hello'', Summary = ''\<newline>Hello''\<rparr>"

definition postB :: Post where
  "postB = \<lparr>Title = ''B'', Date = \<lparr>year = 2024, month = 6, day = 1\<rparr>, Slug = ''post-b'',
            Content = ''\<newline>'' @ replicate 200 (CHR ''x''),
            Summary = ''\<newline>'' @ replicate 149 (CHR ''x'') @ ''...''\<rparr>"

text \<open>
  Thirteen files \<open>a.md\<close> to \<open>m.md\<close>: the first twelve hold the two tokens and nothing else
  (no title, no date, an empty body), the last one has a date. \<open>loaded13\<close> is the slice
  the loop of \<open>loadPosts\<close> builds from them, in the order of the directory; \<open>cache13\<close>
  holds the same posts with the dated one first and the undated ones in another order.
\<close>

definition names13 :: "string list" where
  "names13 = [''a.md'', ''b.md'', ''c.md'', ''d.md'', ''e.md'', ''f.md'', ''g.md'', ''h.md'',
              ''i.md'', ''j.md'', ''k.md'', ''l.md'', ''m.md'']"

definition fs13 :: FS where
  "fs13 = \<lparr>ReadDir = (\<lambda>d. if d = ''content'' then Some names13 else None),
           ReadFile = (\<lambda>f. if f = ''content/m.md'' then Some ''---Date: 2024-01-01---''
                            else if f \<in> set (map (\<lambda>n. ''content/'' @ n) names13)
                            then Some ''------'' else None)\<rparr>"

definition undated :: "string \<Rightarrow> Post" where
  "undated slug = \<lparr>Title = [], Date = zeroTime, Slug = slug, Content = [], Summary = []\<rparr>"

definition dated :: Post where
  "dated = \<lparr>Title = [], Date = \<lparr>year = 2024, month = 1, day = 1\<rparr>, Slug = ''m'',
            Content = [], Summary = []\<rparr>"

definition loaded13 :: "Post list" where
  "loaded13 =
     map undated [''a'', ''b'', ''c'', ''d'', ''e'', ''f'', ''g'', ''h'', ''i'', ''j'', ''k'', ''l'']
       @ [dated]"

definition cache13 :: "Post list" where
  "cache13 =
     dated # map undated
       [''g'', ''c'', ''d'', ''e'', ''f'', ''a'', ''h'', ''i'', ''j'', ''k'', ''l'', ''b'']"


definition contentCRLF :: string where
  "contentCRLF = ''---'' @ [CHR 0x0D, CHR 0x0A] @ ''Title: Hello '' @ [CHR 0x0D, CHR 0x0A]
       @ ''Date: 2024-01-02 '' @ [CHR 0x0D, CHR 0x0A] @ ''---'' @ [CHR 0x0D, CHR 0x0A] @ ''body''"

text \<open>
  A file in well-formed UTF-8 whose body is 149 bytes \<open>a\<close>, the two bytes of U+00E9 and
  a \<open>b\<close>: the two-byte character lies across the 150th byte.
\<close>

definition contentE :: string where
  "contentE = ''------'' @ replicate 149 (CHR ''a'') @ [CHR 0xC3, CHR 0xA9] @ ''b''"

section \<open>Properties\<close>

subsection \<open>Cutting a file into its three parts\<close>

lemma Index_Some_split:
  "Index s sep = Some m \<Longrightarrow> s = take m s @ sep @ drop (m + length sep) s"
proof (induction s sep arbitrary: m rule: Index.induct)
  case (1 substr)
  then show ?case by (simp split: if_splits)
next
  case (2 c cs substr)
  show ?case
  proof (cases "HasPrefix (c # cs) substr")
    case True
    with 2 have "m = 0" by simp
    with True show ?thesis
      by (metis HasPrefix_def add_0 append_Nil append_take_drop_id take_0)
  next
    case False
    with 2 obtain k where k: "Index cs substr = Some k" "m = Suc k" by auto
    from 2(1)[OF False k(1)] k(2) show ?thesis by simp
  qed
qed

lemma Index_append_sep:
  "sep \<noteq> [] \<Longrightarrow> \<exists>m. Index (x @ sep @ y) sep = Some m \<and> m \<le> length x"
proof (induction x)
  case Nil
  then obtain c cs where "sep @ y = c # cs" by (cases sep) auto
  moreover have "HasPrefix (sep @ y) sep" by (simp add: HasPrefix_def)
  ultimately show ?case by (metis Index.simps(2) append_Nil le_refl list.size(3))
next
  case (Cons c x)
  then obtain m where "Index (x @ sep @ y) sep = Some m" "m \<le> length x" by blast
  then show ?case by auto
qed

lemma Index_bound: "Index s sep = Some m \<Longrightarrow> m + length sep \<le> length s"
proof (induction s sep arbitrary: m rule: Index.induct)
  case (1 substr)
  then show ?case by (simp split: if_splits)
next
  case (2 c cs substr)
  show ?case
  proof (cases "HasPrefix (c # cs) substr")
    case True
    with 2 show ?thesis by (simp add: HasPrefix_def)
  next
    case False
    with 2 obtain k where k: "Index cs substr = Some k" "m = Suc k" by auto
    from 2(1)[OF False k(1)] k(2) show ?thesis by simp
  qed
qed

text \<open>
  The loop of \<open>genSplit\<close> stops by itself: once \<open>len(s)\<close> cuts are allowed, allowing more
  changes nothing. So \<open>Split\<close> cuts at every occurrence, as the library's count of the
  occurrences makes it do.
\<close>

lemma genSplit_fuel:
  "sep \<noteq> [] \<Longrightarrow> length s \<le> k \<Longrightarrow> length s \<le> k' \<Longrightarrow>
   genSplit s sep k = genSplit s sep k'"
proof (induction k arbitrary: s k')
  case 0
  then show ?case by (cases k') simp_all
next
  case (Suc k)
  show ?case
  proof (cases "Index s sep")
    case None
    then show ?thesis by (cases k') simp_all
  next
    case (Some m)
    from Suc.prems(1) have "Suc 0 \<le> length sep" by (cases sep) simp_all
    with Index_bound [OF Some] have b: "Suc (length (drop (m + length sep) s)) \<le> length s"
      by simp
    with Suc.prems(3) obtain j where j: "k' = Suc j" by (cases k') auto
    from b Suc.prems(2,3) j have "length (drop (m + length sep) s) \<le> k"
      "length (drop (m + length sep) s) \<le> j" by linarith+
    from Suc.IH [OF Suc.prems(1) this] Some j show ?thesis by simp
  qed
qed

lemma Split_fuel: "sep \<noteq> [] \<Longrightarrow> length s \<le> k \<Longrightarrow> genSplit s sep k = Split s sep"
  unfolding Split_def by (rule genSplit_fuel) simp_all

lemma length_genSplit: "length (genSplit s sep k) \<le> Suc k"
  by (induction k arbitrary: s) (auto split: option.splits)

lemma genSplit_not_Nil: "genSplit s sep k \<noteq> []"
  by (cases k) (auto split: option.splits)

lemma length_SplitN_3: "length (SplitN s sep 3) \<le> 3"
proof -
  have "min 3 (length s + 1) - 1 \<le> 2" by simp
  then have "length (genSplit s sep (min 3 (length s + 1) - 1)) \<le> 3"
    using length_genSplit [of s sep "min 3 (length s + 1) - 1"] by linarith
  then show ?thesis by (simp add: SplitN_def)
qed

lemma genSplit_join2:
  assumes g: "genSplit s sep k = [a, b, c]"
  shows "s = a @ sep @ b @ sep @ c"
proof -
  from g obtain k1 where k1: "k = Suc k1" by (cases k) auto
  with g obtain m where m: "Index s sep = Some m" "a = take m s"
      "genSplit (drop (m + length sep) s) sep k1 = [b, c]"
    by (auto split: option.splits)
  let ?r = "drop (m + length sep) s"
  from m(3) obtain k2 where k2: "k1 = Suc k2" by (cases k1) auto
  with m(3) obtain m2 where m2: "Index ?r sep = Some m2" "b = take m2 ?r"
      "genSplit (drop (m2 + length sep) ?r) sep k2 = [c]"
    by (auto split: option.splits)
  have c: "c = drop (m2 + length sep) ?r"
    using m2(3) by (cases k2) (auto simp: genSplit_not_Nil split: option.splits)
  have "s = a @ sep @ ?r" using Index_Some_split [OF m(1)] m(2) by simp
  moreover have "?r = b @ sep @ c" using Index_Some_split [OF m2(1)] m2(2) c by simp
  ultimately show ?thesis by simp
qed

lemma SplitN_3_join:
  "SplitN s sep 3 = [a, b, c] \<Longrightarrow> s = a @ sep @ b @ sep @ c"
  by (auto simp: SplitN_def dest: genSplit_join2)

lemma three_parts:
  assumes "3 \<le> length (SplitN s sep 3)"
  obtains a b c where "SplitN s sep 3 = [a, b, c]"
proof -
  from assms length_SplitN_3 [of s sep] have "length (SplitN s sep 3) = 3" by simp
  then obtain a b c where "SplitN s sep 3 = [a, b, c]"
    by (auto simp: length_Suc_conv numeral_3_eq_3)
  then show ?thesis by (rule that)
qed

text \<open>
  The cut yields three pieces exactly when the text holds the separator twice, one
  occurrence after the other.
\<close>

lemma SplitN_3_iff:
  assumes "sep \<noteq> []"
  shows "3 \<le> length (SplitN s sep 3) \<longleftrightarrow> (\<exists>a b c. s = a @ sep @ b @ sep @ c)"
proof
  assume "3 \<le> length (SplitN s sep 3)"
  then obtain a b c where "SplitN s sep 3 = [a, b, c]" by (rule three_parts)
  then show "\<exists>a b c. s = a @ sep @ b @ sep @ c" using SplitN_3_join by blast
next
  assume "\<exists>a b c. s = a @ sep @ b @ sep @ c"
  then obtain a b c where s: "s = a @ sep @ b @ sep @ c" by blast
  from assms have "1 \<le> length sep" by (cases sep) auto
  with s have "2 \<le> length s" by simp
  then have n: "min 3 (length s + 1) - 1 = Suc (Suc 0)" by (simp add: min_def)
  from Index_append_sep [OF assms, of a "b @ sep @ c"] s
  obtain m where m: "Index s sep = Some m" "m \<le> length a" by auto
  have "drop (m + length sep) s = (drop (m + length sep) (a @ sep) @ b) @ sep @ c"
    using m(2) s by simp
  with Index_append_sep [OF assms, of "drop (m + length sep) (a @ sep) @ b" c]
  obtain m2 where m2: "Index (drop (m + length sep) s) sep = Some m2" by auto
  have "length (genSplit s sep (Suc (Suc 0))) = 3" using m(1) m2 by simp
  with n show "3 \<le> length (SplitN s sep 3)" by (simp add: SplitN_def)
qed

text \<open>The cut of a text put together from three pieces gives the pieces back.\<close>

lemma HasPrefix_Nil: "HasPrefix s []"
  by (simp add: HasPrefix_def)

lemma HasPrefix_Cons: "HasPrefix (x # xs) (c # cs) \<longleftrightarrow> x = c \<and> HasPrefix xs cs"
  by (auto simp: HasPrefix_def)

lemma HasPrefix_append_long:
  "length sep \<le> length xs \<Longrightarrow> HasPrefix (xs @ r) sep = HasPrefix xs sep"
  by (simp add: HasPrefix_def)

lemma Index_Nil_sep: "Index r [] = Some 0"
  by (cases r) (simp_all add: HasPrefix_def)

lemma Index_at:
  "Index (pre @ sep) sep = Some (length pre) \<Longrightarrow>
   Index (pre @ sep @ r) sep = Some (length pre)"
proof (induction pre)
  case Nil
  then show ?case by (cases sep) (simp_all add: HasPrefix_def Index_Nil_sep)
next
  case (Cons c pre)
  have h: "HasPrefix ((c # pre) @ sep @ r) sep = HasPrefix ((c # pre) @ sep) sep"
    using HasPrefix_append_long [of sep "(c # pre) @ sep" r] by simp
  show ?case
  proof (cases "HasPrefix ((c # pre) @ sep) sep")
    case True
    with Cons.prems show ?thesis by simp
  next
    case False
    with Cons.prems have "Index (pre @ sep) sep = Some (length pre)" by auto
    from Cons.IH [OF this] False h show ?thesis by simp
  qed
qed

lemma Index_take:
  "Index s sep = Some m \<Longrightarrow> Index (take m s @ sep) sep = Some m"
proof (induction s sep arbitrary: m rule: Index.induct)
  case (1 substr)
  then show ?case by (simp add: Index_Nil_sep split: if_splits)
next
  case (2 c cs substr)
  show ?case
  proof (cases "HasPrefix (c # cs) substr")
    case True
    with 2 have "m = 0" by simp
    then show ?thesis by (cases substr) (simp_all add: HasPrefix_def)
  next
    case False
    with 2 obtain k where k: "Index cs substr = Some k" "m = Suc k" by auto
    from 2(1) [OF False k(1)] have ih: "Index (take k cs @ substr) substr = Some k" .
    from Index_Some_split [OF k(1)]
    have "c # cs = (c # take k cs @ substr) @ drop (k + length substr) cs" by simp
    then have "HasPrefix (c # cs) substr = HasPrefix (c # take k cs @ substr) substr"
      using HasPrefix_append_long
        [of substr "c # take k cs @ substr" "drop (k + length substr) cs"]
      by simp
    with False ih k(2) show ?thesis by simp
  qed
qed

lemma SplitN_compose:
  assumes "tokenFree pre" "tokenFree metaRaw"
  shows "SplitN (pre @ ''---'' @ metaRaw @ ''---'' @ bodyRaw) ''---'' 3
     = [pre, metaRaw, bodyRaw]"
proof -
  let ?s = "pre @ ''---'' @ metaRaw @ ''---'' @ bodyRaw"
  have n: "min 3 (length ?s + 1) - 1 = Suc (Suc 0)" by (simp add: min_def)
  have 1: "Index ?s ''---'' = Some (length pre)"
    using Index_at [of pre "''---''" "metaRaw @ ''---'' @ bodyRaw"] assms(1)
    by (simp add: tokenFree_def)
  have 2: "Index (metaRaw @ ''---'' @ bodyRaw) ''---'' = Some (length metaRaw)"
    using Index_at [of metaRaw "''---''" bodyRaw] assms(2) by (simp add: tokenFree_def)
  have "genSplit ?s ''---'' (Suc (Suc 0)) = [pre, metaRaw, bodyRaw]"
    using 1 2 by simp
  with n show ?thesis by (simp add: SplitN_def del: genSplit.simps)
qed

lemma SplitN_tokenFree:
  assumes "SplitN s ''---'' 3 = [a, b, c]"
  shows "tokenFree a \<and> tokenFree b"
proof -
  from assms obtain k where g: "genSplit s ''---'' k = [a, b, c]"
    by (auto simp: SplitN_def split: if_splits)
  from g obtain k1 where k1: "k = Suc k1" by (cases k) auto
  with g obtain m where m: "Index s ''---'' = Some m" "a = take m s"
      "genSplit (drop (m + length ''---'') s) ''---'' k1 = [b, c]"
    by (auto split: option.splits)
  let ?r = "drop (m + length ''---'') s"
  from m(3) obtain k2 where k2: "k1 = Suc k2" by (cases k1) auto
  with m(3) obtain m2 where m2: "Index ?r ''---'' = Some m2" "b = take m2 ?r"
    by (auto split: option.splits)
  from Index_bound [OF m(1)] m(2) have la: "length a = m" by simp
  from Index_bound [OF m2(1)] m2(2) have lb: "length b = m2" by simp
  from Index_take [OF m(1)] Index_take [OF m2(1)] m(2) m2(2) la lb show ?thesis
    by (simp add: tokenFree_def)
qed

text \<open>What the loop body computes for a file of three parts.\<close>

lemma parsePost_parts:
  assumes "SplitN content ''---'' 3 = [pre, metaRaw, bodyRaw]"
  shows "parsePost conv filename content =
     (case conv bodyRaw of
        None \<Rightarrow> Inl Error_converting_goldmark
      | Some html \<Rightarrow>
          Inr ((metaLoop (Split metaRaw [CHR 0x0A]) zeroPost)
                 \<lparr>Slug := slugOf filename, Content := html,
                  Summary := (if 150 < length bodyRaw
                              then take 150 bodyRaw @ ''...'' else bodyRaw)\<rparr>))"
  using assms by (simp add: parsePost_def Let_def)

lemma parsePost_few:
  "length (SplitN content ''---'' 3) < 3 \<Longrightarrow>
   parsePost conv filename content = Inl Error_parsing_file"
  by (simp add: parsePost_def Let_def)

lemma parsePost_Inr_parts:
  assumes "parsePost conv filename content = Inr post"
  obtains pre metaRaw bodyRaw html where
    "SplitN content ''---'' 3 = [pre, metaRaw, bodyRaw]" "conv bodyRaw = Some html"
proof -
  from assms have "\<not> length (SplitN content ''---'' 3) < 3"
    using parsePost_few [of content conv filename] by auto
  then obtain a b c where p: "SplitN content ''---'' 3 = [a, b, c]"
    using three_parts [of content "''---''"] by (metis not_less)
  with assms obtain html where "conv c = Some html"
    by (auto simp: parsePost_parts split: option.splits)
  with p show ?thesis by (rule that)
qed

text \<open>
  Claim C3. The hypothesis is that the conversion returns no error, as goldmark's default
  converter writing to a \<open>bytes.Buffer\<close> does. Then a file becomes a post exactly when the
  cut at \<open>---\<close> gives three pieces, that is when the text holds the token twice. A file
  with fewer than three pieces takes the branch \<open>Error parsing file\<close> (the malformed
  structure), and the loop goes on to the next entry with \<open>posts\<close> unchanged; a file with
  three pieces never fails, and the loop appends its post.
\<close>

theorem parse_succeeds_iff:
  assumes "\<And>body. conv body \<noteq> None"
  shows "((\<exists>post. parsePost conv filename content = Inr post) \<longleftrightarrow>
            3 \<le> length (SplitN content ''---'' 3))
   \<and> (3 \<le> length (SplitN content ''---'' 3) \<longleftrightarrow>
        (\<exists>a b c. content = a @ ''---'' @ b @ ''---'' @ c))
   \<and> (length (SplitN content ''---'' 3) < 3 \<longrightarrow>
        parsePost conv filename content = Inl Error_parsing_file
        \<and> (ReadFile fs (''content/'' @ filename) = Some content \<longrightarrow>
             loadLoop conv fs (filename # files) posts = loadLoop conv fs files posts))
   \<and> (3 \<le> length (SplitN content ''---'' 3) \<longrightarrow>
        ReadFile fs (''content/'' @ filename) = Some content \<longrightarrow>
        (\<exists>post. parsePost conv filename content = Inr post
           \<and> loadLoop conv fs (filename # files) posts
               = loadLoop conv fs files (posts @ [post])))"
proof -
  have a: "(\<exists>post. parsePost conv filename content = Inr post) \<longleftrightarrow>
      3 \<le> length (SplitN content ''---'' 3)"
  proof (cases "length (SplitN content ''---'' 3) < 3")
    case True
    then show ?thesis by (simp add: parsePost_few)
  next
    case False
    then obtain a b c where p: "SplitN content ''---'' 3 = [a, b, c]"
      using three_parts [of content "''---''"] by (metis not_less)
    from assms [of c] obtain html where "conv c = Some html" by auto
    then show ?thesis unfolding parsePost_parts [OF p] p by simp
  qed
  have b: "3 \<le> length (SplitN content ''---'' 3) \<longleftrightarrow>
        (\<exists>a b c. content = a @ ''---'' @ b @ ''---'' @ c)"
    by (rule SplitN_3_iff) simp
  have c: "loadLoop conv fs (filename # files) posts = loadLoop conv fs files posts"
    if "length (SplitN content ''---'' 3) < 3"
      and "ReadFile fs (''content/'' @ filename) = Some content"
    using that by (simp add: loadEntry_def parsePost_few)
  have d: "\<exists>post. parsePost conv filename content = Inr post
           \<and> loadLoop conv fs (filename # files) posts
               = loadLoop conv fs files (posts @ [post])"
    if "3 \<le> length (SplitN content ''---'' 3)"
      and r: "ReadFile fs (''content/'' @ filename) = Some content"
  proof -
    from that(1) a obtain post where p: "parsePost conv filename content = Inr post"
      by blast
    with r have "loadLoop conv fs (filename # files) posts
        = loadLoop conv fs files (posts @ [post])"
      by (simp add: loadEntry_def)
    with p show ?thesis by blast
  qed
  from a b c d show ?thesis by (simp add: parsePost_few)
qed

text \<open>
  The first sample file has three pieces and becomes a post, as does the text of two
  tokens and nothing else; a text without the token is skipped as malformed.
\<close>

theorem parse_succeeds_iff_witness:
  "(\<exists>post. parsePost Some ''post-a.md'' contentA = Inr post)
   \<and> (\<exists>post. parsePost Some ''x.md'' ''------'' = Inr post)
   \<and> parsePost Some ''plain.md'' ''no front matter'' = Inl Error_parsing_file"
proof -
  have t: "Some body \<noteq> None" for body :: string by simp
  have "3 \<le> length (SplitN contentA ''---'' 3)" by code_simp
  moreover have "3 \<le> length (SplitN ''------'' ''---'' 3)" by code_simp
  moreover have "length (SplitN ''no front matter'' ''---'' 3) < 3" by code_simp
  ultimately show ?thesis
    using parse_succeeds_iff [of Some "''post-a.md''" contentA, OF t]
      parse_succeeds_iff [of Some "''x.md''" "''------''", OF t]
      parse_succeeds_iff [of Some "''plain.md''" "''no front matter''", OF t]
    by blast
qed

subsection \<open>The summary\<close>

text \<open>
  Claim C2. A file is cut at the first two tokens \<open>---\<close>; the raw body is what follows
  the second. For every raw body, whatever stands before it (two pieces in which no token
  begins), the file becomes a post once the conversion accepts the body, and the summary
  of the post is the raw body itself, with nothing appended, when the body has at most 150
  bytes, and the first 150 bytes of the raw body followed by \<open>...\<close> when it is longer. The
  HTML of the conversion plays no part. Every post arises in this way.
\<close>

theorem summary_cut:
  "(tokenFree pre \<longrightarrow> tokenFree metaRaw \<longrightarrow> conv bodyRaw = Some html \<longrightarrow>
      (\<exists>post. parsePost conv filename (pre @ ''---'' @ metaRaw @ ''---'' @ bodyRaw) = Inr post
         \<and> Summary post =
             (if length bodyRaw \<le> 150 then bodyRaw else take 150 bodyRaw @ ''...'')))
   \<and> (parsePost conv filename content = Inr p \<longrightarrow>
      (\<exists>a b c. tokenFree a \<and> tokenFree b \<and> content = a @ ''---'' @ b @ ''---'' @ c
         \<and> Summary p = (if length c \<le> 150 then c else take 150 c @ ''...'')))"
proof -
  have 1: "\<exists>post. parsePost conv filename (pre @ ''---'' @ metaRaw @ ''---'' @ bodyRaw) = Inr post
         \<and> Summary post =
             (if length bodyRaw \<le> 150 then bodyRaw else take 150 bodyRaw @ ''...'')"
    if "tokenFree pre" "tokenFree metaRaw" "conv bodyRaw = Some html"
  proof -
    from that(1,2) have s: "SplitN (pre @ ''---'' @ metaRaw @ ''---'' @ bodyRaw) ''---'' 3
        = [pre, metaRaw, bodyRaw]"
      by (rule SplitN_compose)
    show ?thesis unfolding parsePost_parts [OF s] that(3) by auto
  qed
  have 2: "\<exists>a b c. tokenFree a \<and> tokenFree b \<and> content = a @ ''---'' @ b @ ''---'' @ c
         \<and> Summary p = (if length c \<le> 150 then c else take 150 c @ ''...'')"
    if h: "parsePost conv filename content = Inr p"
  proof -
    from h obtain a b c html' where
      s: "SplitN content ''---'' 3 = [a, b, c]" and c: "conv c = Some html'"
      by (rule parsePost_Inr_parts)
    from h have "Summary p = (if length c \<le> 150 then c else take 150 c @ ''...'')"
      unfolding parsePost_parts [OF s] c by auto
    with SplitN_3_join [OF s] SplitN_tokenFree [OF s] show ?thesis by blast
  qed
  from 1 2 show ?thesis by blast
qed

text \<open>
  The first sample file, with a body of six bytes, has the body as its summary. A body of
  200 bytes \<open>x\<close> gives a summary of 153 bytes: 150 times \<open>x\<close> and the three dots.
\<close>

theorem summary_cut_witness:
  "(\<exists>post. parsePost Some ''post-a.md'' contentA = Inr post
        \<and> Summary post = ''\<newline>Hello'')
   \<and> (\<exists>post. parsePost Some ''post-b.md'' (''------'' @ replicate 200 (CHR ''x'')) = Inr post
        \<and> Summary post = replicate 150 (CHR ''x'') @ ''...''
        \<and> length (Summary post) = 153)"
proof -
  let ?m = "''\<newline>Title: A\<newline>Date: 2024-01-01\<newline>''"
  have e: "tokenFree []" by code_simp
  have m: "tokenFree ?m" by code_simp
  have a: "contentA = [] @ ''---'' @ ?m @ ''---'' @ ''\<newline>Hello''"
    by (simp add: contentA_def)
  have ca: "Some ''\<newline>Hello'' = Some ''\<newline>Hello''" ..
  have cb: "Some (replicate 200 (CHR ''x'')) = Some (replicate 200 (CHR ''x''))" ..
  from summary_cut [where conv = Some and pre = "[]" and metaRaw = ?m
      and bodyRaw = "''\<newline>Hello''" and html = "''\<newline>Hello''"
      and filename = "''post-a.md''"] e m ca
  have 1: "\<exists>post. parsePost Some ''post-a.md'' contentA = Inr post
        \<and> Summary post = ''\<newline>Hello''"
    unfolding a by simp
  from summary_cut [where conv = Some and pre = "[]" and metaRaw = "[]"
      and bodyRaw = "replicate 200 (CHR ''x'')" and html = "replicate 200 (CHR ''x'')"
      and filename = "''post-b.md''"] e cb
  have 2: "\<exists>post. parsePost Some ''post-b.md'' (''------'' @ replicate 200 (CHR ''x'')) = Inr post
        \<and> Summary post = replicate 150 (CHR ''x'') @ ''...''" 
    by simp
  from 1 2 show ?thesis by auto
qed

text \<open>
  Appending the three dots neither repairs nor spoils the encoding: a dot is no
  continuation byte, so no character reaches into the dots.
\<close>

lemma runeWidth_dots: "runeWidth ((b # bs) @ ''...'') = runeWidth (b # bs)"
proof -
  consider "bs = []" | x where "bs = [x]" | x y where "bs = [x, y]"
    | x y z r where "bs = x # y # z # r"
    by (metis list.exhaust)
  then show ?thesis
  proof cases
    case 1
    then show ?thesis by (simp add: runeWidth_def Let_def cont_def between_def)
  next
    case 2
    then show ?thesis by (simp add: runeWidth_def Let_def cont_def between_def)
  next
    case 3
    then show ?thesis by (simp add: runeWidth_def Let_def cont_def between_def)
  next
    case 4
    then show ?thesis by (simp add: runeWidth_def Let_def)
  qed
qed

lemma runeWidth_le: "runeWidth (b # bs) \<le> Suc (length bs)"
  by (simp add: runeWidth_def Let_def)

lemma ValidString_dots: "ValidString (xs @ ''...'') = ValidString xs"
proof (induction xs rule: ValidString.induct)
  case 1
  show ?case by code_simp
next
  case (2 b bs)
  let ?w = "runeWidth (b # bs)"
  show ?case
  proof (cases "0 < ?w")
    case False
    then show ?thesis using runeWidth_dots [of b bs] by (simp add: Let_def)
  next
    case True
    from runeWidth_le [of b bs] have "?w - 1 \<le> length bs" by simp
    then have "drop (?w - 1) (bs @ ''...'') = drop (?w - 1) bs @ ''...''" by simp
    with 2 [OF refl] True show ?thesis using runeWidth_dots [of b bs] by (simp add: Let_def)
  qed
qed

text \<open>
  A well-formed start can be taken off a text without changing whether the text is
  well formed, and a character cut short is not well formed.
\<close>

lemma runeWidth_append:
  assumes "0 < runeWidth (b # bs)"
  shows "runeWidth ((b # bs) @ ys) = runeWidth (b # bs)"
proof -
  consider "bs = []" | x where "bs = [x]" | x y where "bs = [x, y]"
    | x y z r where "bs = x # y # z # r"
    by (metis list.exhaust)
  then show ?thesis
  proof cases
    case 1
    with assms show ?thesis by (simp add: runeWidth_def Let_def split: if_splits)
  next
    case 2
    with assms show ?thesis by (simp add: runeWidth_def Let_def split: if_splits)
  next
    case 3
    with assms show ?thesis by (simp add: runeWidth_def Let_def split: if_splits)
  next
    case 4
    then show ?thesis by (simp add: runeWidth_def Let_def)
  qed
qed

lemma ValidString_append: "ValidString xs \<Longrightarrow> ValidString (xs @ ys) = ValidString ys"
proof (induction xs rule: ValidString.induct)
  case 1
  show ?case by simp
next
  case (2 b bs)
  let ?w = "runeWidth (b # bs)"
  from "2.prems" have w: "0 < ?w" and v: "ValidString (drop (?w - 1) bs)"
    by (simp_all add: Let_def)
  from runeWidth_le [of b bs] have "?w - 1 \<le> length bs" by simp
  then have "drop (?w - 1) (bs @ ys) = drop (?w - 1) bs @ ys" by simp
  with "2.IH" [OF refl v] w runeWidth_append [OF w, of ys] show ?case by (simp add: Let_def)
qed

lemma runeWidth_le4: "runeWidth s \<le> 4"
  by (cases s) (simp_all add: runeWidth_def Let_def)

lemma runeWidth_take:
  assumes "0 < k" "k < runeWidth r"
  shows "runeWidth (take k r) = 0"
proof -
  from assms obtain b bs where r: "r = b # bs" by (cases r) (auto simp: runeWidth_def)
  from assms runeWidth_le4 [of r] consider "k = 1" | "k = 2" | "k = 3" by linarith
  then show ?thesis
  proof cases
    case 1
    with assms(2) show ?thesis unfolding r
      by (simp add: runeWidth_def Let_def split: if_splits)
  next
    case 2
    with assms(2) show ?thesis unfolding r
      by (simp add: runeWidth_def Let_def eval_nat_numeral split: if_splits)
  next
    case 3
    with assms(2) show ?thesis unfolding r
      by (simp add: runeWidth_def Let_def eval_nat_numeral split: if_splits)
  qed
qed

lemma not_Valid_take:
  assumes "0 < k" "k < runeWidth r"
  shows "\<not> ValidString (take k r)"
proof -
  from assms obtain b bs where r: "r = b # bs" by (cases r) (auto simp: runeWidth_def)
  from assms(1) obtain j where k: "k = Suc j" by (cases k) auto
  from runeWidth_take [OF assms] show ?thesis unfolding r k by (simp add: Let_def)
qed

lemma straddles_invalid:
  assumes "straddles body n"
  shows "\<not> ValidString (take n body)"
proof -
  from assms obtain i where i: "i < n" "ValidString (take i body)"
      "n < i + runeWidth (drop i body)"
    by (auto simp: straddles_def)
  from i(1) have "take n body = take (i + (n - i)) body" by simp
  then have "take n body = take i body @ take (n - i) (drop i body)"
    by (simp only: take_add)
  moreover have "\<not> ValidString (take (n - i) (drop i body))"
    using i by (intro not_Valid_take) auto
  ultimately show ?thesis using ValidString_append [OF i(2)] by simp
qed

text \<open>
  Claim C9. The cut counts bytes. For every raw body of more than 150 bytes, whatever
  stands before it, the file becomes a post once the conversion accepts the body; the
  first 150 bytes of the summary are the first 150 bytes of the raw body and the rest of
  the summary is \<open>...\<close>, wherever the encoded characters begin and end. The summary is
  well-formed UTF-8 exactly when these 150 bytes are. So whenever a character of several
  bytes lies across the end of the first 150 bytes it is cut in two, and the summary is
  not well-formed UTF-8.
\<close>

theorem summary_cut_bytes:
  assumes "tokenFree pre" and "tokenFree metaRaw" and "conv bodyRaw = Some html"
    and "150 < length bodyRaw"
  shows "\<exists>post. parsePost conv filename (pre @ ''---'' @ metaRaw @ ''---'' @ bodyRaw) = Inr post
     \<and> take 150 (Summary post) = take 150 bodyRaw
     \<and> drop 150 (Summary post) = ''...''
     \<and> length (Summary post) = 153
     \<and> (ValidString (Summary post) \<longleftrightarrow> ValidString (take 150 bodyRaw))
     \<and> (straddles bodyRaw 150 \<longrightarrow> \<not> ValidString (Summary post))"
proof -
  let ?post = "(metaLoop (Split metaRaw [CHR 0x0A]) zeroPost)
                 \<lparr>Slug := slugOf filename, Content := html,
                  Summary := take 150 bodyRaw @ ''...''\<rparr>"
  from assms(1,2) have s: "SplitN (pre @ ''---'' @ metaRaw @ ''---'' @ bodyRaw) ''---'' 3
      = [pre, metaRaw, bodyRaw]"
    by (rule SplitN_compose)
  have p: "parsePost conv filename (pre @ ''---'' @ metaRaw @ ''---'' @ bodyRaw) = Inr ?post"
    unfolding parsePost_parts [OF s] assms(3) using assms(4) by simp
  have u: "Summary ?post = take 150 bodyRaw @ ''...''" by simp
  have t: "take 150 (Summary ?post) = take 150 bodyRaw" "drop 150 (Summary ?post) = ''...''"
    "length (Summary ?post) = 153"
    using assms(4) by simp_all
  have v: "ValidString (Summary ?post) \<longleftrightarrow> ValidString (take 150 bodyRaw)"
    unfolding u by (rule ValidString_dots)
  have w: "\<not> ValidString (Summary ?post)" if "straddles bodyRaw 150"
    using straddles_invalid [OF that] v by simp
  from p t v w show ?thesis by blast
qed

text \<open>
  The sample: the body is 149 bytes \<open>a\<close>, the two bytes of U+00E9 and a \<open>b\<close>, so the
  character begins at byte 149 and lies across the cut. The file is well-formed UTF-8;
  its summary ends with the first byte \<open>0xC3\<close> of the character and the three dots, and
  is not.
\<close>

theorem summary_cut_bytes_witness:
  "ValidString contentE
   \<and> straddles (replicate 149 (CHR ''a'') @ [CHR 0xC3, CHR 0xA9] @ ''b'') 150
   \<and> (\<exists>post. parsePost Some ''e.md'' contentE = Inr post
        \<and> Summary post = replicate 149 (CHR ''a'') @ [CHR 0xC3] @ ''...''
        \<and> \<not> ValidString (Summary post))"
proof -
  let ?b = "replicate 149 (CHR ''a'') @ [CHR 0xC3, CHR 0xA9] @ ''b''"
  have e: "tokenFree []" by code_simp
  have c: "Some ?b = Some ?b" ..
  have l: "150 < length ?b" by simp
  have v: "ValidString contentE" by code_simp
  have "ValidString (take 149 ?b) \<and> 150 < 149 + runeWidth (drop 149 ?b)" by code_simp
  then have st: "straddles ?b 150" unfolding straddles_def by (intro exI [of _ 149]) simp
  have t: "take 150 ?b = replicate 149 (CHR ''a'') @ [CHR 0xC3]" by simp
  from summary_cut_bytes [where conv = Some and filename = "''e.md''", OF e e c l]
  obtain post where p: "parsePost Some ''e.md'' ([] @ ''---'' @ [] @ ''---'' @ ?b) = Inr post"
    and s: "take 150 (Summary post) = take 150 ?b" "drop 150 (Summary post) = ''...''"
    and n: "straddles ?b 150 \<longrightarrow> \<not> ValidString (Summary post)"
    by blast
  from s t have "Summary post = replicate 149 (CHR ''a'') @ [CHR 0xC3] @ ''...''"
    by (metis append_take_drop_id append_assoc)
  moreover from p have "parsePost Some ''e.md'' contentE = Inr post"
    by (simp add: contentE_def)
  ultimately show ?thesis using v st n by blast
qed

subsection \<open>The front matter\<close>

lemma metaLoop_snoc: "metaLoop (lines @ [l]) post = metaLine l (metaLoop lines post)"
  by (induction lines arbitrary: post) auto

lemma metaLine_Title:
  "Title (metaLine l post) =
     (if HasPrefix l ''Title: '' then TrimPrefix l ''Title: '' else Title post)"
  by (simp add: metaLine_def Let_def)

lemma metaLine_Date:
  "Date (metaLine l post) =
     (if HasPrefix l ''Date: '' then
        (case Parse (TrimSpace (TrimPrefix l ''Date: '')) of None \<Rightarrow> zeroTime | Some t \<Rightarrow> t)
      else Date post)"
  by (simp add: metaLine_def Let_def)

text \<open>The last line with the prefix decides each field.\<close>

lemma metaLoop_Title:
  "Title (metaLoop lines post) =
     (let ts = filter (\<lambda>l. HasPrefix l ''Title: '') lines
      in if ts = [] then Title post else TrimPrefix (last ts) ''Title: '')"
  by (induction lines rule: rev_induct) (simp_all add: metaLoop_snoc metaLine_Title Let_def)

lemma metaLoop_Date:
  "Date (metaLoop lines post) =
     (let ds = filter (\<lambda>l. HasPrefix l ''Date: '') lines
      in if ds = [] then Date post
         else (case Parse (TrimSpace (TrimPrefix (last ds) ''Date: '')) of
                 None \<Rightarrow> zeroTime | Some t \<Rightarrow> t))"
  by (induction lines rule: rev_induct) (simp_all add: metaLoop_snoc metaLine_Date Let_def)


text \<open>
  \<open>TrimSpace\<close> takes any run of white space off either end of a text that begins and
  ends with a digit.
\<close>

lemma stripLeft_find:
  assumes "w \<noteq> []" and "find (\<lambda>t. t \<noteq> [] \<and> HasPrefix (w @ s) t) toks = Some w"
  shows "stripLeft toks (w @ s) = stripLeft toks s"
proof -
  from assms(1) obtain c cs where w: "w = c # cs" by (cases w) auto
  with assms(2) show ?thesis by simp
qed

lemma stripLeft_stop:
  "find (\<lambda>t. t \<noteq> [] \<and> HasPrefix s t) toks = None \<Longrightarrow> stripLeft toks s = s"
  by (cases s) simp_all

text \<open>No white space begins with another one: the first that fits is the one that stands there.\<close>

lemma find_space_all:
  "\<forall>w \<in> set spaces.
     w \<noteq> [] \<and> find (\<lambda>t. t \<noteq> [] \<and> HasPrefix (w @ s) t) spaces = Some w"
  unfolding spaces_def
  by (simp add: HasPrefix_Cons HasPrefix_Nil)

lemma find_space_rev_all:
  "\<forall>w \<in> set (map rev spaces).
     w \<noteq> [] \<and> find (\<lambda>t. t \<noteq> [] \<and> HasPrefix (w @ s) t) (map rev spaces) = Some w"
  unfolding spaces_def
  by (simp add: HasPrefix_Cons HasPrefix_Nil)

lemma stripLeft_spaces:
  "set ws \<subseteq> set spaces \<Longrightarrow> stripLeft spaces (concat ws @ s) = stripLeft spaces s"
proof (induction ws)
  case Nil
  then show ?case by simp
next
  case (Cons w ws)
  then have "w \<in> set spaces" by simp
  with find_space_all [of "concat ws @ s"]
  have "stripLeft spaces (w @ concat ws @ s) = stripLeft spaces (concat ws @ s)"
    by (intro stripLeft_find) auto
  with Cons show ?case by simp
qed

lemma stripLeft_spaces_rev:
  "set ws \<subseteq> set (map rev spaces) \<Longrightarrow>
   stripLeft (map rev spaces) (concat ws @ s) = stripLeft (map rev spaces) s"
proof (induction ws)
  case Nil
  then show ?case by simp
next
  case (Cons w ws)
  then have "w \<in> set (map rev spaces)" by simp
  with find_space_rev_all [of "concat ws @ s"]
  have "stripLeft (map rev spaces) (w @ concat ws @ s)
      = stripLeft (map rev spaces) (concat ws @ s)"
    by (intro stripLeft_find) auto
  with Cons show ?case by simp
qed

lemma digit_no_space:
  assumes "(48::nat) \<le> of_char c" "of_char c \<le> (57::nat)"
  shows "find (\<lambda>t. t \<noteq> [] \<and> HasPrefix (c # cs) t) spaces = None"
    and "find (\<lambda>t. t \<noteq> [] \<and> HasPrefix (c # cs) t) (map rev spaces) = None"
proof -
  have n: "c \<noteq> CHR 0x09" "c \<noteq> CHR 0x0A" "c \<noteq> CHR 0x0B" "c \<noteq> CHR 0x0C" "c \<noteq> CHR 0x0D"
    "c \<noteq> CHR 0x20" "c \<noteq> CHR 0xC2" "c \<noteq> CHR 0xE1" "c \<noteq> CHR 0xE2" "c \<noteq> CHR 0xE3"
    "c \<noteq> CHR 0x85" "c \<noteq> CHR 0xA0" "c \<noteq> CHR 0x80" "c \<noteq> CHR 0x81" "c \<noteq> CHR 0x82"
    "c \<noteq> CHR 0x83" "c \<noteq> CHR 0x84" "c \<noteq> CHR 0x86" "c \<noteq> CHR 0x87" "c \<noteq> CHR 0x88"
    "c \<noteq> CHR 0x89" "c \<noteq> CHR 0x8A" "c \<noteq> CHR 0xA8" "c \<noteq> CHR 0xA9" "c \<noteq> CHR 0xAF"
    "c \<noteq> CHR 0x9F"
    using assms by auto
  show "find (\<lambda>t. t \<noteq> [] \<and> HasPrefix (c # cs) t) spaces = None"
    unfolding spaces_def by (simp add: HasPrefix_Cons n)
  show "find (\<lambda>t. t \<noteq> [] \<and> HasPrefix (c # cs) t) (map rev spaces) = None"
    unfolding spaces_def by (simp add: HasPrefix_Cons n)
qed

lemma TrimSpace_padded:
  assumes l: "set wl \<subseteq> set spaces" and r: "set wr \<subseteq> set spaces"
    and d: "d \<noteq> []" "isDigit d 0" "isDigit d (length d - 1)"
  shows "TrimSpace (concat wl @ d @ concat wr) = d"
proof -
  from d obtain c cs where c: "d = c # cs" by (cases d) auto
  with d(2) have c0: "(48::nat) \<le> of_char c" "of_char c \<le> (57::nat)"
    by (simp_all add: isDigit_def)
  from d obtain e es where e: "rev d = e # es" by (cases "rev d") auto
  then have "e = last d" using d(1) by (metis list.sel(1) hd_rev)
  with d have e0: "(48::nat) \<le> of_char e" "of_char e \<le> (57::nat)"
    by (simp_all add: isDigit_def last_conv_nth)
  have 1: "stripLeft spaces (concat wl @ d @ concat wr) = d @ concat wr"
    using stripLeft_spaces [OF l, of "d @ concat wr"]
      stripLeft_stop [OF digit_no_space(1) [OF c0]] c
    by simp
  have "rev (d @ concat wr) = concat (map rev (rev wr)) @ rev d" by (simp add: rev_concat)
  moreover have "set (map rev (rev wr)) \<subseteq> set (map rev spaces)" using r by auto
  ultimately have 2: "stripLeft (map rev spaces) (rev (d @ concat wr)) = rev d"
    using stripLeft_spaces_rev [of "map rev (rev wr)" "rev d"]
      stripLeft_stop [OF digit_no_space(2) [OF e0]] e
    by simp
  from 1 2 show ?thesis by (simp add: TrimSpace_def)
qed

text \<open>\<open>Parse\<close> accepts nothing but the form \<open>YYYY-MM-DD\<close>.\<close>

lemma isDigit_drop: "isDigit (drop k v) i \<longleftrightarrow> isDigit v (k + i)"
  by (auto simp: isDigit_def)

lemma skip_dash: "skip v ''-'' = Some r \<Longrightarrow> v \<noteq> [] \<and> v ! 0 = CHR ''-'' \<and> r = drop 1 v"
  by (cases v) (auto simp: skip_def HasPrefix_def split: if_splits)

lemma getnum_fixed:
  "getnum v True = Some (n, r) \<Longrightarrow> isDigit v 0 \<and> isDigit v 1 \<and> r = drop 2 v"
  by (auto simp: getnum_def split: if_splits)

lemma atoi_Some: "atoi s = Some y \<Longrightarrow> \<forall>i < length s. isDigit s i"
  by (auto simp: atoi_def split: if_splits)

lemma Parse_Some_isoForm:
  assumes "Parse v = Some t"
  shows "isoForm v"
proof -
  from assms have l4: "4 \<le> length v"
    by (auto simp: Parse_def split: if_splits)
  from assms obtain y where y: "atoi (take 4 v) = Some y"
    by (auto simp: Parse_def split: if_splits option.splits)
  from assms y obtain v1 where v1: "skip (drop 4 v) ''-'' = Some v1"
    by (auto simp: Parse_def split: if_splits option.splits)
  from assms y v1 obtain m v2 where m: "getnum v1 True = Some (m, v2)"
    by (auto simp: Parse_def split: if_splits option.splits)
  from assms y v1 m obtain v3 where v3: "skip v2 ''-'' = Some v3"
    by (auto simp: Parse_def split: if_splits option.splits)
  from assms y v1 m v3 obtain d v4 where d: "getnum v3 True = Some (d, v4)"
    by (auto simp: Parse_def split: if_splits option.splits)
  from assms y v1 m v3 d have e: "v4 = []"
    by (auto simp: Parse_def split: if_splits option.splits)
  from atoi_Some [OF y] l4 have a: "isDigit v 0" "isDigit v 1" "isDigit v 2" "isDigit v 3"
    by (auto simp: isDigit_def)
  from skip_dash [OF v1] have b: "4 < length v" "v ! 4 = CHR ''-''" "v1 = drop 5 v"
    by (auto simp: l4)
  from getnum_fixed [OF m] b(3) have c: "isDigit v 5" "isDigit v 6" "v2 = drop 7 v"
    by (auto simp: isDigit_drop)
  from skip_dash [OF v3] c(3) have f: "7 < length v" "v ! 7 = CHR ''-''" "v3 = drop 8 v"
    by auto
  from getnum_fixed [OF d] f(3) have g: "isDigit v 8" "isDigit v 9" "v4 = drop 10 v"
    by (auto simp: isDigit_drop)
  from g e have "length v = 10" by (auto simp: isDigit_def)
  with a b c f g show ?thesis by (simp add: isoForm_def)
qed

lemma isoForm_ends: "isoForm v \<Longrightarrow> v \<noteq> [] \<and> isDigit v 0 \<and> isDigit v (length v - 1)"
  by (auto simp: isoForm_def)

lemma Parse_longer:
  assumes "Parse d = Some tm" and "x \<noteq> []"
  shows "Parse (d @ x) = None" and "Parse (x @ d) = None"
proof -
  from Parse_Some_isoForm [OF assms(1)] have "length d = 10" by (simp add: isoForm_def)
  with assms(2) have "length (d @ x) \<noteq> 10" "length (x @ d) \<noteq> 10" by simp_all
  then have "\<not> isoForm (d @ x)" "\<not> isoForm (x @ d)" by (simp_all add: isoForm_def)
  with Parse_Some_isoForm show "Parse (d @ x) = None" "Parse (x @ d) = None"
    by (metis not_Some_eq)+
qed

text \<open>
  Claim C10. The two fields are not treated alike. A line \<open>Title: t\<close> sets the title to
  \<open>t\<close>, every byte after the prefix, white space at either end included, and nothing
  else. A line \<open>Date: \<close> followed by a date \<open>d\<close> that \<open>Parse\<close> accepts, with any run of
  white space before and after it, sets the date to that of \<open>d\<close>: the white space is
  trimmed before the value is parsed, and it has to be, because \<open>Parse\<close> rejects \<open>d\<close> with
  anything before or after it. Over the whole front matter the title is the untrimmed
  rest of the last \<open>Title: \<close> line and the date comes from the trimmed rest of the last
  \<open>Date: \<close> line.
\<close>

theorem title_raw_date_trimmed:
  "metaLine (''Title: '' @ t) post = post\<lparr>Title := t\<rparr>
   \<and> (Parse d = Some tm \<longrightarrow> set wl \<subseteq> set spaces \<longrightarrow> set wr \<subseteq> set spaces \<longrightarrow>
        metaLine (''Date: '' @ concat wl @ d @ concat wr) post = post\<lparr>Date := tm\<rparr>)
   \<and> (Parse d = Some tm \<longrightarrow> x \<noteq> [] \<longrightarrow> Parse (d @ x) = None \<and> Parse (x @ d) = None)
   \<and> metaLine (''Date: '' @ v) post =
       post\<lparr>Date := (case Parse (TrimSpace v) of None \<Rightarrow> zeroTime | Some d \<Rightarrow> d)\<rparr>
   \<and> Title (metaLoop lines post) =
       (let ts = filter (\<lambda>l. HasPrefix l ''Title: '') lines
        in if ts = [] then Title post else drop 7 (last ts))
   \<and> Date (metaLoop lines post) =
       (let ds = filter (\<lambda>l. HasPrefix l ''Date: '') lines
        in if ds = [] then Date post
           else (case Parse (TrimSpace (drop 6 (last ds))) of
                   None \<Rightarrow> zeroTime | Some d \<Rightarrow> d))"
proof -
  have a: "metaLine (''Title: '' @ t) post = post\<lparr>Title := t\<rparr>"
    by (simp add: metaLine_def HasPrefix_def TrimPrefix_def)
  have b: "metaLine (''Date: '' @ v) post =
       post\<lparr>Date := (case Parse (TrimSpace v) of None \<Rightarrow> zeroTime | Some d \<Rightarrow> d)\<rparr>" for v
    by (simp add: metaLine_def HasPrefix_def TrimPrefix_def)
  have p: "metaLine (''Date: '' @ concat wl @ d @ concat wr) post = post\<lparr>Date := tm\<rparr>"
    if "Parse d = Some tm" "set wl \<subseteq> set spaces" "set wr \<subseteq> set spaces"
  proof -
    from isoForm_ends [OF Parse_Some_isoForm [OF that(1)]]
    have "TrimSpace (concat wl @ d @ concat wr) = d"
      using TrimSpace_padded [OF that(2,3)] by blast
    with that(1) b [of "concat wl @ d @ concat wr"] show ?thesis by simp
  qed
  have t7: "HasPrefix x ''Title: '' \<Longrightarrow> TrimPrefix x ''Title: '' = drop 7 x" for x
    by (simp add: TrimPrefix_def eval_nat_numeral)
  have d6: "HasPrefix x ''Date: '' \<Longrightarrow> TrimPrefix x ''Date: '' = drop 6 x" for x
    by (simp add: TrimPrefix_def eval_nat_numeral)
  have l: "xs \<noteq> [] \<Longrightarrow> xs = filter P lines \<Longrightarrow> P (last xs)" for xs P
    using last_in_set [of xs] by auto
  have c: "Title (metaLoop lines post) =
       (let ts = filter (\<lambda>l. HasPrefix l ''Title: '') lines
        in if ts = [] then Title post else drop 7 (last ts))"
    using l [of "filter (\<lambda>l. HasPrefix l ''Title: '') lines" "\<lambda>l. HasPrefix l ''Title: ''"]
    by (simp add: metaLoop_Title Let_def t7)
  have d: "Date (metaLoop lines post) =
       (let ds = filter (\<lambda>l. HasPrefix l ''Date: '') lines
        in if ds = [] then Date post
           else (case Parse (TrimSpace (drop 6 (last ds))) of
                   None \<Rightarrow> zeroTime | Some d \<Rightarrow> d))"
    using l [of "filter (\<lambda>l. HasPrefix l ''Date: '') lines" "\<lambda>l. HasPrefix l ''Date: ''"]
    by (simp add: metaLoop_Date Let_def d6)
  from a b [of v] p c d Parse_longer [of d tm x] show ?thesis by blast
qed

text \<open>
  With CR LF line ends each line of the front matter ends in a carriage return. It stays
  in the title, together with the blank before it; both are trimmed off the date, which
  parses although the untrimmed value would not.
\<close>

theorem title_raw_date_trimmed_witness:
  "Title (metaLine (''Title: Hello '' @ [CHR 0x0D]) zeroPost) = ''Hello '' @ [CHR 0x0D]
   \<and> Date (metaLine (''Date: 2024-01-02 '' @ [CHR 0x0D]) zeroPost)
       = \<lparr>year = 2024, month = 1, day = 2\<rparr>
   \<and> Parse (''2024-01-02 '' @ [CHR 0x0D]) = None
   \<and> parsePost Some ''p.md'' contentCRLF =
       Inr \<lparr>Title = ''Hello '' @ [CHR 0x0D], Date = \<lparr>year = 2024, month = 1, day = 2\<rparr>,
            Slug = ''p'', Content = [CHR 0x0D, CHR 0x0A] @ ''body'',
            Summary = [CHR 0x0D, CHR 0x0A] @ ''body''\<rparr>"
proof -
  have p: "Parse ''2024-01-02'' = Some \<lparr>year = 2024, month = 1, day = 2\<rparr>" by code_simp
  have wl: "set [] \<subseteq> set spaces" by simp
  have wr: "set ['' '', [CHR 0x0D]] \<subseteq> set spaces" by (simp add: spaces_def)
  have x: "'' '' @ [CHR 0x0D] \<noteq> []" by simp
  have e: "parsePost Some ''p.md'' contentCRLF =
       Inr \<lparr>Title = ''Hello '' @ [CHR 0x0D], Date = \<lparr>year = 2024, month = 1, day = 2\<rparr>,
            Slug = ''p'', Content = [CHR 0x0D, CHR 0x0A] @ ''body'',
            Summary = [CHR 0x0D, CHR 0x0A] @ ''body''\<rparr>"
    by code_simp
  from title_raw_date_trimmed [where t = "''Hello '' @ [CHR 0x0D]" and post = zeroPost
      and d = "''2024-01-02''" and tm = "\<lparr>year = 2024, month = 1, day = 2\<rparr>"
      and wl = "[]" and wr = "['' '', [CHR 0x0D]]" and x = "'' '' @ [CHR 0x0D]"] p wl wr x
  have "metaLine (''Title: '' @ ''Hello '' @ [CHR 0x0D]) zeroPost
          = zeroPost\<lparr>Title := ''Hello '' @ [CHR 0x0D]\<rparr>"
    and "metaLine (''Date: '' @ concat [] @ ''2024-01-02'' @ concat ['' '', [CHR 0x0D]]) zeroPost
          = zeroPost\<lparr>Date := \<lparr>year = 2024, month = 1, day = 2\<rparr>\<rparr>"
    and "Parse (''2024-01-02'' @ '' '' @ [CHR 0x0D]) = None"
    by blast+
  with e show ?thesis by simp
qed

subsection \<open>The slug\<close>

lemma ExtLoop_shape:
  "ExtLoop xs acc = [] \<or>
   (\<exists>ys zs. xs = ys @ CHR ''.'' # zs \<and> ExtLoop xs acc = CHR ''.'' # rev ys @ acc)"
proof (induction xs arbitrary: acc)
  case Nil
  then show ?case by simp
next
  case (Cons c cs)
  show ?case
  proof (cases "IsPathSeparator c \<or> c = CHR ''.''")
    case True
    then show ?thesis by (auto intro: exI [of _ "[]"])
  next
    case False
    from Cons [of "c # acc"] show ?thesis
    proof
      assume "ExtLoop cs (c # acc) = []"
      with False show ?thesis by simp
    next
      assume "\<exists>ys zs. cs = ys @ CHR ''.'' # zs
          \<and> ExtLoop cs (c # acc) = CHR ''.'' # rev ys @ c # acc"
      then obtain ys zs where "cs = ys @ CHR ''.'' # zs"
          "ExtLoop cs (c # acc) = CHR ''.'' # rev ys @ c # acc"
        by blast
      with False have "c # cs = (c # ys) @ CHR ''.'' # zs
          \<and> ExtLoop (c # cs) acc = CHR ''.'' # rev (c # ys) @ acc"
        by simp
      then show ?thesis by blast
    qed
  qed
qed

lemma Ext_suffix: "HasSuffix path (Ext path)"
proof -
  from ExtLoop_shape [of "rev path" "[]"] show ?thesis
  proof
    assume "ExtLoop (rev path) [] = []"
    then show ?thesis by (simp add: Ext_def HasSuffix_def)
  next
    assume "\<exists>ys zs. rev path = ys @ CHR ''.'' # zs
        \<and> ExtLoop (rev path) [] = CHR ''.'' # rev ys @ []"
    then obtain ys zs where r: "rev path = ys @ CHR ''.'' # zs"
      and e: "Ext path = CHR ''.'' # rev ys"
      by (auto simp: Ext_def)
    from r have "path = rev zs @ CHR ''.'' # rev ys"
      by (metis rev_append rev.simps(2) rev_rev_ident append_Cons append_Nil append_assoc)
    with e show ?thesis by (simp add: HasSuffix_def)
  qed
qed

lemma slugOf_Ext: "slugOf name @ Ext name = name"
  using Ext_suffix [of name]
  by (auto simp: slugOf_def TrimSuffix_def HasSuffix_def) (metis append_take_drop_id)

lemma ExtLoop_no_dot: "CHR ''.'' \<notin> set xs \<Longrightarrow> ExtLoop xs acc = []"
  by (induction xs arbitrary: acc) auto

lemma Ext_no_dot: "CHR ''.'' \<notin> set s \<Longrightarrow> Ext s = []"
  by (simp add: Ext_def ExtLoop_no_dot)

lemma parsePost_Slug:
  assumes "parsePost conv name content = Inr post"
  shows "Slug post = slugOf name"
proof -
  from assms obtain pre metaRaw bodyRaw html where
    p: "SplitN content ''---'' 3 = [pre, metaRaw, bodyRaw]" and c: "conv bodyRaw = Some html"
    by (rule parsePost_Inr_parts)
  from assms show ?thesis unfolding parsePost_parts [OF p] c by auto
qed

lemma Ext_md: "Ext (s @ ''.md'') = ''.md''"
  by (simp add: Ext_def IsPathSeparator_def)

lemma slugOf_md: "slugOf (s @ ''.md'') = s"
  by (simp add: slugOf_def Ext_md TrimSuffix_def HasSuffix_def)

text \<open>
  Claim C6, as the program has it. The slug of a post is a function of the entry's name
  alone, whatever the file holds. It is the name with its extension cut off: slug and
  extension together are the name again, byte for byte. Deriving a slug from a slug gives
  the same slug exactly when the slug has no extension of its own, in particular when it
  holds no dot; a name with two dots loses one extension on each pass.
\<close>

theorem slug_derivation:
  "slugOf name @ Ext name = name
   \<and> (slugOf (slugOf name) = slugOf name \<longleftrightarrow> Ext (slugOf name) = [])
   \<and> (CHR ''.'' \<notin> set (slugOf name) \<longrightarrow> slugOf (slugOf name) = slugOf name)
   \<and> (\<forall>conv content post. parsePost conv name content = Inr post \<longrightarrow> Slug post = slugOf name)"
proof -
  have i: "slugOf s = s \<longleftrightarrow> Ext s = []" for s
    using slugOf_Ext [of s] by (metis append_Nil2 append_self_conv)
  from i [of "slugOf name"] slugOf_Ext [of name] Ext_no_dot [of "slugOf name"]
    parsePost_Slug [of _ name]
  show ?thesis by blast
qed

theorem slug_derivation_witness:
  "slugOf ''post-a.md'' = ''post-a'' \<and> Ext ''post-a.md'' = ''.md''
   \<and> slugOf (slugOf ''post-a.md'') = slugOf ''post-a.md''
   \<and> (\<exists>post. parsePost Some ''post-a.md'' contentA = Inr post \<and> Slug post = ''post-a'')"
proof -
  have s: "slugOf ''post-a.md'' = ''post-a''" by code_simp
  have e: "Ext ''post-a.md'' = ''.md''" by code_simp
  have d: "CHR ''.'' \<notin> set (slugOf ''post-a.md'')" unfolding s by simp
  have p: "parsePost Some ''post-a.md'' contentA = Inr postA" by code_simp
  from slug_derivation [of "''post-a.md''"] s e d p show ?thesis by metis
qed

text \<open>
  The claim as it was stated says that deriving again leaves a slug unchanged. The name
  \<open>a.b.md\<close> has the slug \<open>a.b\<close>, and the slug of that is \<open>a\<close>.
\<close>

theorem slug_idempotent_counterexample:
  "slugOf ''a.b.md'' = ''a.b'' \<and> slugOf (slugOf ''a.b.md'') = ''a''
   \<and> slugOf (slugOf ''a.b.md'') \<noteq> slugOf ''a.b.md''"
  by code_simp

subsection \<open>The cache\<close>

lemma loadLoop_append:
  "loadLoop conv fs files posts = posts @ loadLoop conv fs files []"
proof (induction files arbitrary: posts)
  case Nil
  then show ?case by simp
next
  case (Cons name files)
  show ?case
  proof (cases "loadEntry conv fs name")
    case (Inl e)
    with Cons [of posts] show ?thesis by simp
  next
    case (Inr post)
    with Cons [of "posts @ [post]"] Cons [of "[post]"] show ?thesis by simp
  qed
qed

lemma loadLoop_Cons:
  "loadLoop conv fs (name # files) [] =
     (case loadEntry conv fs name of Inl e \<Rightarrow> [] | Inr post \<Rightarrow> [post])
       @ loadLoop conv fs files []"
proof (cases "loadEntry conv fs name")
  case (Inl e)
  then show ?thesis by simp
next
  case (Inr post)
  then show ?thesis using loadLoop_append [of conv fs files "[post]"] by simp
qed

lemma loadEntry_Slug: "loadEntry conv fs name = Inr post \<Longrightarrow> Slug post = slugOf name"
  by (auto simp: loadEntry_def parsePost_Slug split: option.splits)

lemma loadLoop_Slugs:
  "map Slug (loadLoop conv fs files []) =
     map slugOf (filter (\<lambda>name. \<not> isl (loadEntry conv fs name)) files)"
proof (induction files)
  case Nil
  then show ?case by simp
next
  case (Cons name files)
  show ?case
  proof (cases "loadEntry conv fs name")
    case (Inl e)
    with Cons show ?thesis by (simp add: loadLoop_Cons del: loadLoop.simps)
  next
    case (Inr post)
    with Cons loadEntry_Slug [OF Inr] show ?thesis
      by (simp add: loadLoop_Cons del: loadLoop.simps)
  qed
qed

lemma loadLoop_set:
  "set (loadLoop conv fs files []) =
     {post. \<exists>name \<in> set files. loadEntry conv fs name = Inr post}"
proof (induction files)
  case Nil
  then show ?case by simp
next
  case (Cons name files)
  then show ?case
    by (cases "loadEntry conv fs name") (auto simp: loadLoop_Cons simp del: loadLoop.simps)
qed

lemma loadPosts_cases:
  assumes "loadPosts conv fs postCache"
  obtains files where "ReadDir fs ''content'' = Some files"
    "mset postCache = mset (loadLoop conv fs files [])"
    "sorted_wrt (\<lambda>a b. \<not> lessDate b a) postCache"
  using assms by (auto simp: loadPosts_def sort_Slice_def split: option.splits)

text \<open>\<open>After\<close> is the strict part of a total order of the times.\<close>

lemma After_irrefl: "\<not> After t t"
  by (simp add: After_def)

lemma After_total: "\<not> After (u::Time) t \<Longrightarrow> After t u \<or> t = u"
  by (cases t, cases u) (auto simp: After_def)

lemma After_key:
  "After t u \<longleftrightarrow> (year u, month u, day u) < (year t, month t, day t)"
  by (auto simp: After_def)

text \<open>
  \<open>loadPosts\<close> has a result whenever the directory can be listed: some arrangement of the
  loaded posts meets what \<open>sort.Slice\<close> promises.
\<close>

lemma loadPosts_total:
  assumes "ReadDir fs ''content'' = Some files"
  shows "\<exists>postCache. loadPosts conv fs postCache"
proof -
  define key where "key = (\<lambda>p::Post. (year (Date p), month (Date p), day (Date p)))"
  let ?xs = "loadLoop conv fs files []"
  let ?ys = "rev (sort_key key ?xs)"
  have k: "\<not> lessDate b a \<longleftrightarrow> key b \<le> key a" for a b
    unfolding lessDate_def After_key key_def by (simp only: not_less)
  have "sorted (map key (sort_key key ?xs))" by (rule sorted_sort_key)
  then have "sorted_wrt (\<lambda>a b. key a \<le> key b) (sort_key key ?xs)" by (simp add: sorted_map)
  then have "sorted_wrt (\<lambda>a b. key b \<le> key a) ?ys" by (simp add: sorted_wrt_rev)
  then have "sorted_wrt (\<lambda>a b. \<not> lessDate b a) ?ys" by (simp add: k)
  moreover have "mset ?ys = mset ?xs" by simp
  ultimately have "loadPosts conv fs ?ys" using assms by (simp add: loadPosts_def sort_Slice_def)
  then show ?thesis ..
qed

text \<open>The samples, loaded.\<close>

lemma loadPosts_fsA: "loadPosts Some fsA [postB, postA]"
proof -
  have r: "ReadDir fsA ''content'' = Some [''post-a.md'', ''post-b.md'']"
    by (simp add: fsA_def)
  have l: "loadLoop Some fsA [''post-a.md'', ''post-b.md''] [] = [postA, postB]"
    by code_simp
  have s: "sort_Slice lessDate [postA, postB] [postB, postA]"
    by (simp add: sort_Slice_def lessDate_def After_def postA_def postB_def)
  from r l s show ?thesis by (simp add: loadPosts_def)
qed

lemma embedded_fsA: "embedded fsA"
  by (simp add: embedded_def fsA_def HasSuffix_def)

lemma loadLoop_fs13: "loadLoop Some fs13 names13 [] = loaded13"
  by code_simp

lemma loadPosts_fs13: "loadPosts Some fs13 cache13"
proof -
  have r: "ReadDir fs13 ''content'' = Some names13" by (simp add: fs13_def)
  have m: "mset cache13 = mset loaded13" by (simp add: cache13_def loaded13_def)
  have s: "sorted_wrt (\<lambda>a b. \<not> lessDate b a) cache13"
    by (simp add: cache13_def lessDate_def After_def undated_def dated_def zeroTime_def)
  from r loadLoop_fs13 m s show ?thesis by (simp add: loadPosts_def sort_Slice_def)
qed

text \<open>
  Claim C1, as the program has it. The cache holds exactly the posts the loop built, each
  as often as it was built, and it is ordered by date, latest first: of two neighbours
  the first is dated after the second or they have the same date, and no post is dated
  after one that stands before it. Nothing is said about the order of posts with the same
  date: \<open>sort.Slice\<close> does not promise to keep it.
\<close>

theorem cache_sorted_by_date:
  assumes "ReadDir fs ''content'' = Some files" and "loadPosts conv fs postCache"
  shows "mset postCache = mset (loadLoop conv fs files [])
     \<and> (\<forall>i. i + 1 < length postCache \<longrightarrow>
           After (Date (postCache ! i)) (Date (postCache ! (i + 1)))
           \<or> Date (postCache ! i) = Date (postCache ! (i + 1)))
     \<and> (\<forall>i j. i < j \<longrightarrow> j < length postCache \<longrightarrow>
           \<not> After (Date (postCache ! j)) (Date (postCache ! i)))"
proof -
  from assms(2) obtain files' where f': "ReadDir fs ''content'' = Some files'"
    and m: "mset postCache = mset (loadLoop conv fs files' [])"
    and o: "sorted_wrt (\<lambda>a b. \<not> lessDate b a) postCache"
    by (rule loadPosts_cases)
  from f' assms(1) have ff: "files' = files" by simp
  have p: "\<not> After (Date (postCache ! j)) (Date (postCache ! i))"
    if "i < j" "j < length postCache" for i j
    using o that by (simp add: sorted_wrt_iff_nth_less lessDate_def)
  have a: "After (Date (postCache ! i)) (Date (postCache ! (i + 1)))
           \<or> Date (postCache ! i) = Date (postCache ! (i + 1))"
    if "i + 1 < length postCache" for i
    using p [of i "i + 1"] that by (simp add: After_total)
  from m ff p a show ?thesis by blast
qed

text \<open>The two sample posts: the one of June stands before the one of January.\<close>

theorem cache_sorted_by_date_witness:
  "loadPosts Some fsA [postB, postA]
   \<and> mset [postB, postA] = mset (loadLoop Some fsA [''post-a.md'', ''post-b.md''] [])
   \<and> After (Date postB) (Date postA)"
proof -
  have r: "ReadDir fsA ''content'' = Some [''post-a.md'', ''post-b.md'']"
    by (simp add: fsA_def)
  have n: "Date postB \<noteq> Date postA" by (simp add: postA_def postB_def)
  from cache_sorted_by_date [OF r loadPosts_fsA]
  have "mset [postB, postA] = mset (loadLoop Some fsA [''post-a.md'', ''post-b.md''] [])"
    and "\<forall>i. i + 1 < length [postB, postA] \<longrightarrow>
           After (Date ([postB, postA] ! i)) (Date ([postB, postA] ! (i + 1)))
           \<or> Date ([postB, postA] ! i) = Date ([postB, postA] ! (i + 1))"
    by blast+
  from this(1) this(2) [rule_format, of 0] n loadPosts_fsA show ?thesis by simp
qed

text \<open>
  The claim as it was stated adds that posts with the same date keep the order in which
  the directory lists them. For the thirteen sample files, \<open>cache13\<close> is a result that
  \<open>sort.Slice\<close> may leave, and its undated posts stand in the order g, c, d, e, f, a, h, i,
  j, k, l, b. (It is the order that the pattern-defeating quicksort of Go 1.19 and later
  leaves for this input: the post of \<open>g.md\<close> is taken as the pivot and swapped to the
  front.)
\<close>

theorem stable_order_counterexample:
  "ReadDir fs13 ''content'' = Some names13
   \<and> loadPosts Some fs13 cache13
   \<and> filter (\<lambda>p. Date p = zeroTime) cache13
       \<noteq> filter (\<lambda>p. Date p = zeroTime) (loadLoop Some fs13 names13 [])"
proof -
  have r: "ReadDir fs13 ''content'' = Some names13" by (simp add: fs13_def)
  have f: "filter (\<lambda>p. Date p = zeroTime) cache13 \<noteq> filter (\<lambda>p. Date p = zeroTime) loaded13"
    by (simp add: cache13_def loaded13_def undated_def dated_def zeroTime_def)
  from r loadPosts_fs13 f show ?thesis by (simp add: loadLoop_fs13)
qed



subsection \<open>Looking a post up\<close>

lemma findLoop_find:
  "findLoop ps slug acc =
     (case find (\<lambda>p. Slug p = slug) ps of None \<Rightarrow> acc | Some p \<Rightarrow> (p, True))"
  by (induction ps) auto

lemma find_first:
  "find P xs = Some p \<Longrightarrow>
   \<exists>pre rest. xs = pre @ p # rest \<and> P p \<and> (\<forall>q \<in> set pre. \<not> P q)"
proof (induction xs)
  case Nil
  then show ?case by simp
next
  case (Cons x xs)
  show ?case
  proof (cases "P x")
    case True
    with Cons.prems have "x = p" by simp
    with True show ?thesis by (metis append_Nil empty_iff list.set(1))
  next
    case False
    with Cons obtain pre rest where "xs = pre @ p # rest" "P p" "\<forall>q \<in> set pre. \<not> P q"
      by auto
    with False have "x # xs = (x # pre) @ p # rest \<and> P p \<and> (\<forall>q \<in> set (x # pre). \<not> P q)"
      by simp
    then show ?thesis by blast
  qed
qed

lemma find_distinct:
  "distinct (map Slug ps) \<Longrightarrow> doc \<in> set ps \<Longrightarrow> find (\<lambda>p. Slug p = Slug doc) ps = Some doc"
  by (induction ps) (auto simp: image_iff)

text \<open>Names that end in \<open>.md\<close> and differ have slugs that differ.\<close>

lemma HasSuffix_md:
  assumes "HasSuffix f ''.md''"
  shows "slugOf f @ ''.md'' = f"
proof -
  from assms have "f = take (length f - 3) f @ ''.md''"
    by (metis HasSuffix_def append_take_drop_id length_Cons list.size(3) numeral_3_eq_3)
  then show ?thesis by (metis slugOf_md)
qed

lemma distinct_slugs_md:
  assumes "distinct files" "list_all (\<lambda>f. HasSuffix f ''.md'') files"
  shows "distinct (map slugOf (filter P files))"
proof -
  have "inj_on slugOf (set files)"
  proof (rule inj_onI)
    fix f g assume "f \<in> set files" "g \<in> set files" "slugOf f = slugOf g"
    with assms(2) HasSuffix_md [of f] HasSuffix_md [of g] show "f = g"
      by (metis list_all_iff)
  qed
  then have "inj_on slugOf (set (filter P files))" by (rule inj_on_subset) auto
  with assms(1) show ?thesis by (simp add: distinct_map)
qed

lemma embedded_distinct_slugs:
  assumes "embedded fs" "loadPosts conv fs postCache"
  shows "distinct (map Slug postCache)"
proof -
  from assms(2) obtain files where f: "ReadDir fs ''content'' = Some files"
    and m: "mset postCache = mset (loadLoop conv fs files [])"
    by (rule loadPosts_cases)
  from assms(1) f have "distinct files" "list_all (\<lambda>f. HasSuffix f ''.md'') files"
    by (simp_all add: embedded_def)
  then have "distinct (map Slug (loadLoop conv fs files []))"
    unfolding loadLoop_Slugs by (rule distinct_slugs_md)
  moreover from m have "mset (map Slug postCache) = mset (map Slug (loadLoop conv fs files []))"
    by (metis mset_map)
  ultimately show ?thesis by (metis mset_eq_imp_distinct_iff)
qed

text \<open>
  Claim C4. The program's file system is the embedded one: the entries of \<open>content\<close> are
  distinct names that match \<open>*.md\<close>. For every post of the cache that \<open>loadPosts\<close> builds
  from it, the scan for the post's slug finds this very post: the handler gets
  \<open>found = true\<close> and hands the post, with its title, to the template.
\<close>

theorem lookup_roundtrip:
  assumes "embedded fs" and "loadPosts conv fs postCache" and "doc \<in> set postCache"
  shows "findBySlug postCache (Slug doc) = PostPage (Title doc) doc"
  using find_distinct [OF embedded_distinct_slugs [OF assms(1,2)] assms(3)]
  by (simp add: findBySlug_def findLoop_find)

text \<open>The slug \<open>post-a\<close> finds the first sample post, which stands second in the cache.\<close>

theorem lookup_roundtrip_witness:
  "embedded fsA \<and> loadPosts Some fsA [postB, postA]
   \<and> findBySlug [postB, postA] ''post-a'' = PostPage ''A'' postA
   \<and> postHandler [postB, postA] ''/post/post-a'' = PostPage ''A'' postA"
proof -
  have d: "postA \<in> set [postB, postA]" by simp
  have s: "Slug postA = ''post-a''" "Title postA = ''A''" by (simp_all add: postA_def)
  have t: "TrimPrefix ''/post/post-a'' ''/post/'' = ''post-a''" by code_simp
  from lookup_roundtrip [OF embedded_fsA loadPosts_fsA d] s t embedded_fsA loadPosts_fsA
  show ?thesis by (simp add: postHandler_def)
qed

text \<open>
  Claim C5. The scan answers \<open>NotFound\<close> exactly when no post of the cache has the slug
  asked for; the zero post with which \<open>foundPost\<close> starts is never handed on. This holds
  for every list of posts, so for every cache that \<open>loadPosts\<close> builds.
\<close>

theorem absent_slug_NotFound:
  "findBySlug postCache slug = NotFound \<longleftrightarrow> (\<forall>doc \<in> set postCache. Slug doc \<noteq> slug)"
proof
  assume "findBySlug postCache slug = NotFound"
  then have "find (\<lambda>p. Slug p = slug) postCache = None"
    by (auto simp: findBySlug_def findLoop_find split: option.splits)
  then show "\<forall>doc \<in> set postCache. Slug doc \<noteq> slug" by (simp add: find_None_iff)
next
  assume "\<forall>doc \<in> set postCache. Slug doc \<noteq> slug"
  then have "find (\<lambda>p. Slug p = slug) postCache = None" by (simp add: find_None_iff)
  then show "findBySlug postCache slug = NotFound"
    by (simp add: findBySlug_def findLoop_find)
qed

theorem absent_slug_NotFound_witness:
  "loadPosts Some fsA [postB, postA]
   \<and> findBySlug [postB, postA] ''post-c'' = NotFound
   \<and> findBySlug [postB, postA] ''post-c'' \<noteq> PostPage (Title zeroPost) zeroPost"
proof -
  have "\<forall>doc \<in> set [postB, postA]. Slug doc \<noteq> ''post-c''"
    by (simp add: postA_def postB_def)
  with absent_slug_NotFound [of "[postB, postA]" "''post-c''"] loadPosts_fsA
  show ?thesis by simp
qed

text \<open>
  What the scan does for any cache that \<open>loadPosts\<close> builds: it returns the first post of
  the cache with the slug asked for, and as the cache is ordered by date no post with
  that slug is dated after the one returned. Every entry that loads is in the cache; equal
  slugs are not looked for. From the embedded file system no two posts with the same slug
  arise.
\<close>

lemma lookup_first_match:
  assumes "ReadDir fs ''content'' = Some files"
    and "loadPosts conv fs postCache"
    and "findBySlug postCache slug = PostPage t p"
  shows "t = Title p \<and> Slug p = slug
     \<and> (\<exists>pre rest. postCache = pre @ p # rest \<and> (\<forall>q \<in> set pre. Slug q \<noteq> slug))
     \<and> (\<forall>q \<in> set postCache. Slug q = slug \<longrightarrow> \<not> After (Date q) (Date p))
     \<and> (\<forall>name \<in> set files. \<forall>post. loadEntry conv fs name = Inr post \<longrightarrow> post \<in> set postCache)
     \<and> (embedded fs \<longrightarrow> distinct (map Slug postCache))"
proof -
  from assms(3) have f: "find (\<lambda>q. Slug q = slug) postCache = Some p" and t: "t = Title p"
    by (auto simp: findBySlug_def findLoop_find split: option.splits)
  from find_first [OF f] obtain pre rest where
    c: "postCache = pre @ p # rest" and s: "Slug p = slug"
    and n: "\<forall>q \<in> set pre. Slug q \<noteq> slug"
    by blast
  from assms(2) obtain files' where f': "ReadDir fs ''content'' = Some files'"
    and m: "mset postCache = mset (loadLoop conv fs files' [])"
    and o: "sorted_wrt (\<lambda>a b. \<not> lessDate b a) postCache"
    by (rule loadPosts_cases)
  from f' assms(1) have ff: "files' = files" by simp
  have d: "\<not> After (Date q) (Date p)" if "q \<in> set postCache" "Slug q = slug" for q
  proof -
    from that n c have "q = p \<or> q \<in> set rest" by auto
    then show ?thesis
    proof
      assume "q = p"
      then show ?thesis by (simp add: After_irrefl)
    next
      assume "q \<in> set rest"
      with o c show ?thesis by (auto simp: sorted_wrt_append lessDate_def)
    qed
  qed
  have e: "post \<in> set postCache"
    if "name \<in> set files" "loadEntry conv fs name = Inr post" for name post
  proof -
    from that have "post \<in> set (loadLoop conv fs files [])" unfolding loadLoop_set by blast
    with m ff show ?thesis by (metis mset_eq_setD)
  qed
  from t s c n d e embedded_distinct_slugs [OF _ assms(2)] show ?thesis by blast
qed

end
